theory Spec2Isabelle
  imports
    Complex_Main
    "HOL-Library.Sublist"
    "HOL-Library.Char_ord"
    "HOL-Library.List_Lexorder"
begin

section \<open>Python values\<close>

text \<open>
  The values that flow through \<^verbatim>\<open>repo-oracle/server.py\<close> are what \<^verbatim>\<open>r.json()\<close>
  produces and what the functions build from string, integer and boolean literals:
  \<^verbatim>\<open>None\<close>, booleans, integers, strings, lists and dictionaries with string keys.
  A Python \<^verbatim>\<open>dict\<close> (and the \<^verbatim>\<open>OrderedDict\<close> of the cache) keeps insertion order,
  so it is an association list; a well-formed dictionary has distinct keys.
  A string is a list of characters with code points below 256.
  Floating-point numbers are left out.
\<close>

datatype json =
    JNull
  | JBool bool
  | JInt int
  | JStr string
  | JList "json list"
  | JObj "(string \<times> json) list"

type_synonym pydict = "(string \<times> json) list"

text \<open>The exceptions that can leave the modelled functions.\<close>

datatype py_error =
    KeyError
  | AttributeError
  | TypeError
  | ValueError
  | JSONDecodeError
  | RequestException

text \<open>\<^verbatim>\<open>k in d\<close>\<close>

definition has_key :: "pydict \<Rightarrow> string \<Rightarrow> bool" where
  "has_key d k = (map_of d k \<noteq> None)"

text \<open>\<^verbatim>\<open>d[k] = v\<close>: an existing key keeps its position, a new key goes to the end.\<close>

fun dict_set :: "pydict \<Rightarrow> string \<Rightarrow> json \<Rightarrow> pydict" where
  "dict_set [] k v = [(k, v)]"
| "dict_set ((k', v') # r) k v =
     (if k' = k then (k, v) # r else (k', v') # dict_set r k v)"

text \<open>
  \<^verbatim>\<open>OrderedDict.move_to_end(k)\<close>: the entry of \<open>k\<close> becomes the last one. Python
  raises \<^verbatim>\<open>KeyError\<close> when \<open>k\<close> is absent; both call sites in \<^verbatim>\<open>LRU\<close> have the key
  present (lemmas \<open>LRU_get_key_present\<close> and \<open>LRU_set_key_present\<close>), and the
  dictionary is returned unchanged in that unreachable case.
\<close>

definition move_to_end :: "pydict \<Rightarrow> string \<Rightarrow> pydict" where
  "move_to_end d k =
     (case map_of d k of
        None \<Rightarrow> d
      | Some v \<Rightarrow> filter (\<lambda>kv. fst kv \<noteq> k) d @ [(k, v)])"

section \<open>The LRU cache\<close>

text \<open>
  \<^verbatim>\<open>
  class LRU:
      def __init__(self, maxsize: int = 128):
          self.maxsize = maxsize
          self._d: "OrderedDict[str, Any]" = OrderedDict()
      def get(self, k: str):
          if k in self._d:
              self._d.move_to_end(k)
              return self._d[k]
          return None
      def set(self, k: str, v: Any):
          self._d[k] = v
          self._d.move_to_end(k)
          if len(self._d) > self.maxsize:
              self._d.popitem(last=False)
  \<close>
  The field \<^verbatim>\<open>_d\<close> is \<open>dct\<close>: oldest entry first, freshest entry last.
\<close>

record LRU =
  maxsize :: int
  dct :: pydict

definition LRU_init :: "int \<Rightarrow> LRU" where
  "LRU_init m = \<lparr>maxsize = m, dct = []\<rparr>"

text \<open>\<^verbatim>\<open>get\<close> returns the value (Python \<^verbatim>\<open>None\<close> is \<open>JNull\<close>) and the updated cache.\<close>

definition LRU_get :: "LRU \<Rightarrow> string \<Rightarrow> json \<times> LRU" where
  "LRU_get c k =
     (if has_key (dct c) k
      then (let d' = move_to_end (dct c) k
            in (case map_of d' k of Some v \<Rightarrow> v | None \<Rightarrow> JNull, c\<lparr>dct := d'\<rparr>))
      else (JNull, c))"

text \<open>
  \<^verbatim>\<open>popitem(last=False)\<close> removes the first entry; it is reached only with a
  non-empty dictionary (lemma \<open>LRU_set_nonempty_before_pop\<close>).
\<close>

definition LRU_set :: "LRU \<Rightarrow> string \<Rightarrow> json \<Rightarrow> LRU" where
  "LRU_set c k v =
     (let d1 = dict_set (dct c) k v;
          d2 = move_to_end d1 k
      in if int (length d2) > maxsize c then c\<lparr>dct := drop 1 d2\<rparr> else c\<lparr>dct := d2\<rparr>)"

text \<open>A sequence of calls on one cache.\<close>

datatype lru_op = Get string | Set string json

fun op_key :: "lru_op \<Rightarrow> string" where
  "op_key (Get k) = k"
| "op_key (Set k v) = k"

fun apply_lru_op :: "LRU \<Rightarrow> lru_op \<Rightarrow> LRU" where
  "apply_lru_op c (Get k) = snd (LRU_get c k)"
| "apply_lru_op c (Set k v) = LRU_set c k v"

definition run_ops :: "LRU \<Rightarrow> lru_op list \<Rightarrow> LRU" where
  "run_ops c ops = foldl apply_lru_op c ops"

text \<open>
  The time of the last touch of a key in a history of calls: the position
  (counted from 1) of the last call on that key, 0 when there is none.
\<close>

fun last_touch :: "lru_op list \<Rightarrow> string \<Rightarrow> nat" where
  "last_touch [] k = 0"
| "last_touch (x # xs) k =
     (let t = last_touch xs k
      in if t \<noteq> 0 then Suc t else if op_key x = k then 1 else 0)"

definition keys :: "pydict \<Rightarrow> string list" where
  "keys d = map fst d"

text \<open>
  The keys of a cache are kept in order of their last touch: distinct, and each one
  touched earlier than the ones after it.
\<close>

definition recency_sorted :: "lru_op list \<Rightarrow> string list \<Rightarrow> bool" where
  "recency_sorted h ks =
     (distinct ks \<and> sorted_wrt (\<lambda>a b. last_touch h a < last_touch h b) ks)"

definition lru_inv :: "int \<Rightarrow> lru_op list \<Rightarrow> LRU \<Rightarrow> bool" where
  "lru_inv m h c =
     (maxsize c = m \<and> recency_sorted h (keys (dct c)) \<and> int (length (dct c)) \<le> max 0 m)"

section \<open>Strings\<close>

text \<open>\<^verbatim>\<open>str(n)\<close> for an integer: decimal digits, with a minus sign when negative.\<close>

definition digit_char :: "nat \<Rightarrow> char" where
  "digit_char n = char_of (48 + n)"

fun digits :: "nat \<Rightarrow> string" where
  "digits n = (if n < 10 then [digit_char n] else digits (n div 10) @ [digit_char (n mod 10)])"

declare digits.simps [simp del]

definition show_int :: "int \<Rightarrow> string" where
  "show_int i = (if i < 0 then CHR ''-'' # digits (nat (- i)) else digits (nat i))"

text \<open>
  \<^verbatim>\<open>str.lower()\<close> on code points below 256: the ASCII capitals and the Latin-1
  capitals (0xC0 to 0xDE without the multiplication sign 0xD7) move up by 32.
\<close>

definition lower_char :: "char \<Rightarrow> char" where
  "lower_char c =
     (let n = (of_char c :: nat)
      in if (65 \<le> n \<and> n \<le> 90) \<or> (192 \<le> n \<and> n \<le> 222 \<and> n \<noteq> 215)
         then char_of (n + 32) else c)"

definition lower :: "string \<Rightarrow> string" where
  "lower s = map lower_char s"

text \<open>\<^verbatim>\<open>needle in hay\<close> for strings; \<^verbatim>\<open>s.startswith(p)\<close> is \<open>prefix p s\<close>.\<close>

fun contains :: "string \<Rightarrow> string \<Rightarrow> bool" where
  "contains needle [] = (needle = [])"
| "contains needle (h # t) = (prefix needle (h # t) \<or> contains needle t)"

text \<open>Python truthiness, and \<^verbatim>\<open>x or y\<close>.\<close>

fun truthy :: "json \<Rightarrow> bool" where
  "truthy JNull = False"
| "truthy (JBool b) = b"
| "truthy (JInt i) = (i \<noteq> 0)"
| "truthy (JStr s) = (s \<noteq> [])"
| "truthy (JList xs) = (xs \<noteq> [])"
| "truthy (JObj kvs) = (kvs \<noteq> [])"

definition py_or :: "json \<Rightarrow> json \<Rightarrow> json" where
  "py_or x y = (if truthy x then x else y)"

section \<open>The cache key\<close>

text \<open>
  \<^verbatim>\<open>
  def _cache_key(path: str, params: Dict[str, Any]) -> str:
      return f"{path}?{json.dumps(params, sort_keys=True)}"
  \<close>
  \<^verbatim>\<open>json.dumps\<close> with its defaults (\<^verbatim>\<open>ensure_ascii=True\<close>, separators \<^verbatim>\<open>", "\<close> and
  \<^verbatim>\<open>": "\<close>) and \<^verbatim>\<open>sort_keys=True\<close>: the entries of every dictionary are written in
  the order of their keys (compared by code points). Inside a string, the double quote,
  the backslash and the control characters with a short form are escaped with a
  backslash, the other characters outside the range from the space to the tilde as
  \<^verbatim>\<open>\u00XX\<close> with lower-case hexadecimal digits.
\<close>

definition hex_char :: "nat \<Rightarrow> char" where
  "hex_char n = (if n < 10 then char_of (48 + n) else char_of (87 + n))"

definition json_escape_char :: "char \<Rightarrow> string" where
  "json_escape_char c =
     (if c = CHR 0x22 then [CHR 0x5C, CHR 0x22]
      else if c = CHR 0x5C then [CHR 0x5C, CHR 0x5C]
      else if c = CHR 0x0A then [CHR 0x5C, CHR ''n'']
      else if c = CHR 0x0D then [CHR 0x5C, CHR ''r'']
      else if c = CHR 0x09 then [CHR 0x5C, CHR ''t'']
      else if c = CHR 0x0C then [CHR 0x5C, CHR ''f'']
      else if c = CHR 0x08 then [CHR 0x5C, CHR ''b'']
      else if 32 \<le> (of_char c :: nat) \<and> (of_char c :: nat) \<le> 126 then [c]
      else [CHR 0x5C, CHR ''u'', CHR ''0'', CHR ''0'',
            hex_char ((of_char c :: nat) div 16), hex_char ((of_char c :: nat) mod 16)])"

definition json_quote :: "string \<Rightarrow> string" where
  "json_quote s = CHR 0x22 # concat (map json_escape_char s) @ [CHR 0x22]"

fun join :: "string \<Rightarrow> string list \<Rightarrow> string" where
  "join sep [] = []"
| "join sep [x] = x"
| "join sep (x # y # r) = x @ sep @ join sep (y # r)"

fun json_dumps_sort_keys :: "json \<Rightarrow> string" where
  "json_dumps_sort_keys JNull = ''null''"
| "json_dumps_sort_keys (JBool b) = (if b then ''true'' else ''false'')"
| "json_dumps_sort_keys (JInt i) = show_int i"
| "json_dumps_sort_keys (JStr s) = json_quote s"
| "json_dumps_sort_keys (JList xs) = ''['' @ join '', '' (map json_dumps_sort_keys xs) @ '']''"
| "json_dumps_sort_keys (JObj kvs) =
     ''{'' @ join '', ''
              (map (\<lambda>kv. json_quote (fst kv) @ '': '' @ json_dumps_sort_keys (snd kv))
                   (sort_key fst kvs))
          @ ''}''"

definition cache_key :: "string \<Rightarrow> pydict \<Rightarrow> string" where
  "cache_key path params = path @ ''?'' @ json_dumps_sort_keys (JObj params)"

section \<open>The remote call\<close>

text \<open>
  What the code reads from the response of \<^verbatim>\<open>requests.get\<close>: \<^verbatim>\<open>r.ok\<close>,
  \<^verbatim>\<open>r.status_code\<close>, \<^verbatim>\<open>r.text\<close>, \<^verbatim>\<open>r.headers\<close> and \<^verbatim>\<open>r.json()\<close>, which raises when
  the body is not JSON (\<open>None\<close> here).
\<close>

record response =
  resp_ok :: bool
  resp_status_code :: int
  resp_text :: string
  resp_headers :: "string \<rightharpoonup> string"
  resp_json :: "json option"

text \<open>\<^verbatim>\<open>r.headers.get(name, "")\<close>\<close>

definition header_get :: "(string \<rightharpoonup> string) \<Rightarrow> string \<Rightarrow> string" where
  "header_get h name = (case h name of None \<Rightarrow> [] | Some v \<Rightarrow> v)"

text \<open>
  The effects are recorded in a trace: each remote call with its path and parameters,
  and each \<^verbatim>\<open>time.sleep\<close> with its length. The state is the module-level \<^verbatim>\<open>CACHE\<close>
  and the trace so far.

  The remote side is a parameter: a function from the trace so far, the path and the
  parameters to a response, or to the exception \<^verbatim>\<open>requests.get\<close> raises. The base
  URL, the request headers and the timeout of 12 seconds are part of it.
\<close>

datatype event = NetCall string pydict | Sleep rat

record world =
  CACHE :: LRU
  trace :: "event list"

type_synonym transport = "event list \<Rightarrow> string \<Rightarrow> pydict \<Rightarrow> py_error + response"

text \<open>\<^verbatim>\<open>time.sleep(s)\<close> raises \<^verbatim>\<open>ValueError\<close> for a negative length.\<close>

definition py_sleep :: "rat \<Rightarrow> world \<Rightarrow> py_error + world" where
  "py_sleep s w = (if s < 0 then Inl ValueError else Inr (w\<lparr>trace := trace w @ [Sleep s]\<rparr>))"

text \<open>\<^verbatim>\<open>params or {}\<close>\<close>

definition params_or_empty :: "pydict option \<Rightarrow> pydict" where
  "params_or_empty params = (case params of None \<Rightarrow> [] | Some p \<Rightarrow> p)"

text \<open>
  \<^verbatim>\<open>
  def _get(path: str, params: Dict[str, Any] = None, use_cache: bool = True):
      params = params or {}
      key = _cache_key(path, params)
      if use_cache:
          hit = CACHE.get(key)
          if hit is not None:
              return {"data": hit, "from_cache": True}
      r = requests.get(BASE + path, headers=_hdrs(), params=params, timeout=12)
      if not r.ok:
          return {
              "error": f"{r.status_code}: {r.text[:200]}",
              "path": path,
              "ratelimit-remaining": r.headers.get("X-RateLimit-Remaining", ""),
              "ratelimit-reset": r.headers.get("X-RateLimit-Reset", "")
          }
      data = r.json()
      if use_cache:
          CACHE.set(key, data)
      return {
          "data": data,
          "from_cache": False,
          "link": r.headers.get("Link", ""),
          "ratelimit": r.headers.get("X-RateLimit-Remaining", "")
      }
  \<close>
\<close>

definition failure_dict :: "string \<Rightarrow> response \<Rightarrow> pydict" where
  "failure_dict path r =
     [(''error'', JStr (show_int (resp_status_code r) @ '': '' @ take 200 (resp_text r))),
      (''path'', JStr path),
      (''ratelimit-remaining'', JStr (header_get (resp_headers r) ''X-RateLimit-Remaining'')),
      (''ratelimit-reset'', JStr (header_get (resp_headers r) ''X-RateLimit-Reset''))]"

definition success_dict :: "json \<Rightarrow> response \<Rightarrow> pydict" where
  "success_dict data r =
     [(''data'', data),
      (''from_cache'', JBool False),
      (''link'', JStr (header_get (resp_headers r) ''Link'')),
      (''ratelimit'', JStr (header_get (resp_headers r) ''X-RateLimit-Remaining''))]"

text \<open>The part of \<^verbatim>\<open>_get\<close> from \<^verbatim>\<open>requests.get\<close> on.\<close>

definition get_remote ::
  "transport \<Rightarrow> string \<Rightarrow> pydict \<Rightarrow> string \<Rightarrow> bool \<Rightarrow> world \<Rightarrow> (py_error + pydict) \<times> world" where
  "get_remote tr path params key use_cache w =
     (let w1 = w\<lparr>trace := trace w @ [NetCall path params]\<rparr>
      in case tr (trace w) path params of
           Inl e \<Rightarrow> (Inl e, w1)
         | Inr r \<Rightarrow>
             if \<not> resp_ok r then (Inr (failure_dict path r), w1)
             else (case resp_json r of
                     None \<Rightarrow> (Inl JSONDecodeError, w1)
                   | Some data \<Rightarrow>
                       (Inr (success_dict data r),
                        if use_cache then w1\<lparr>CACHE := LRU_set (CACHE w1) key data\<rparr> else w1)))"

definition get ::
  "transport \<Rightarrow> string \<Rightarrow> pydict option \<Rightarrow> bool \<Rightarrow> world \<Rightarrow> (py_error + pydict) \<times> world" where
  "get tr path params0 use_cache w =
     (let params = params_or_empty params0;
          key = cache_key path params
      in if use_cache
         then (let (hit, c) = LRU_get (CACHE w) key;
                   w0 = w\<lparr>CACHE := c\<rparr>
               in if hit \<noteq> JNull
                  then (Inr [(''data'', hit), (''from_cache'', JBool True)], w0)
                  else get_remote tr path params key use_cache w0)
         else get_remote tr path params key use_cache w)"

section \<open>The paginator\<close>

text \<open>
  \<^verbatim>\<open>
  def _get_all(path: str, params: Dict[str, Any] = None, max_pages: int = 5, sleep_s: float = 0.0):
      params = params or {}
      all_items, page = [], 1
      while page <= max_pages:
          res = _get(path, {**params, "page": page})
          if "error" in res:
              err = res["error"].lower()
              if err.startswith("403:") and "rate limit" in err:
                  time.sleep(2.0)
                  res = _get(path, {**params, "page": page})
                  if "error" in res:
                      return res
              else:
                  return res

          data = res["data"]
          if isinstance(data, list):
              if not data:
                  break
              all_items.extend(data)
          else:
              items = data.get("items", [])
              if not items:
                  break
              all_items.extend(items)

          link = (res.get("link") or "")
          if 'rel="next"' not in link:
              break
          page += 1
          if sleep_s:
              time.sleep(sleep_s)
      return {"data": all_items}
  \<close>
  One pass through the loop body ends in one of four ways. The length \<^verbatim>\<open>sleep_s\<close> is a
  rational number (every finite float is one).
\<close>

datatype step =
    Raise py_error
  | Return pydict
  | Break "json list"
  | Next "json list"

text \<open>\<^verbatim>\<open>err = res["error"].lower(); err.startswith("403:") and "rate limit" in err\<close>\<close>

definition is_rate_limit :: "string \<Rightarrow> bool" where
  "is_rate_limit e = (let err = lower e in prefix ''403:'' err \<and> contains ''rate limit'' err)"

text \<open>
  The first part of the body, the fetch of the page and the single retry, ends by
  raising, by returning a failure, or by going on with a result.
\<close>

datatype fetched =
    FRaise py_error
  | FReturn pydict
  | FGoOn pydict

definition fetch_page :: "transport \<Rightarrow> string \<Rightarrow> pydict \<Rightarrow> world \<Rightarrow> fetched \<times> world" where
  "fetch_page tr path q w =
     (case get tr path (Some q) True w of
        (Inl e, w1) \<Rightarrow> (FRaise e, w1)
      | (Inr res, w1) \<Rightarrow>
          if has_key res ''error''
          then (case map_of res ''error'' of
                  Some (JStr e) \<Rightarrow>
                    if is_rate_limit e
                    then (case py_sleep 2 w1 of
                            Inl x \<Rightarrow> (FRaise x, w1)
                          | Inr w2 \<Rightarrow>
                              (case get tr path (Some q) True w2 of
                                 (Inl x, w3) \<Rightarrow> (FRaise x, w3)
                               | (Inr res2, w3) \<Rightarrow>
                                   if has_key res2 ''error'' then (FReturn res2, w3)
                                   else (FGoOn res2, w3)))
                    else (FReturn res, w1)
                | _ \<Rightarrow> (FRaise AttributeError, w1))
          else (FGoOn res, w1))"

text \<open>
  \<^verbatim>\<open>all_items.extend(x)\<close>: a list gives its elements, a string its characters, a
  dictionary its keys; a number or a boolean is not iterable.
\<close>

fun py_extend :: "json list \<Rightarrow> json \<Rightarrow> py_error + json list" where
  "py_extend acc (JList ys) = Inr (acc @ ys)"
| "py_extend acc (JStr s) = Inr (acc @ map (\<lambda>c. JStr [c]) s)"
| "py_extend acc (JObj kvs) = Inr (acc @ map (\<lambda>kv. JStr (fst kv)) kvs)"
| "py_extend acc _ = Inl TypeError"

text \<open>
  The collection taken from the payload: the list itself, or \<^verbatim>\<open>data.get("items", [])\<close>
  of a dictionary; any other payload has no \<^verbatim>\<open>get\<close>.
\<close>

fun extract_items :: "json \<Rightarrow> py_error + json" where
  "extract_items (JList xs) = Inr (JList xs)"
| "extract_items (JObj kvs) =
     Inr (case map_of kvs ''items'' of None \<Rightarrow> JList [] | Some v \<Rightarrow> v)"
| "extract_items _ = Inl AttributeError"

text \<open>\<^verbatim>\<open>'rel="next"' in link\<close>\<close>

definition rel_next :: string where
  "rel_next = ''rel='' @ [CHR 0x22] @ ''next'' @ [CHR 0x22]"

fun py_in :: "string \<Rightarrow> json \<Rightarrow> py_error + bool" where
  "py_in s (JStr t) = Inr (contains s t)"
| "py_in s (JList xs) = Inr (JStr s \<in> set xs)"
| "py_in s (JObj kvs) = Inr (has_key kvs s)"
| "py_in s _ = Inl TypeError"

text \<open>The second part of the body, from \<^verbatim>\<open>data = res["data"]\<close> on.\<close>

definition absorb_page :: "pydict \<Rightarrow> rat \<Rightarrow> json list \<Rightarrow> world \<Rightarrow> step \<times> world" where
  "absorb_page res sleep_s all_items w =
     (case map_of res ''data'' of
        None \<Rightarrow> (Raise KeyError, w)
      | Some data \<Rightarrow>
          (case extract_items data of
             Inl e \<Rightarrow> (Raise e, w)
           | Inr items \<Rightarrow>
               if \<not> truthy items then (Break all_items, w)
               else (case py_extend all_items items of
                       Inl e \<Rightarrow> (Raise e, w)
                     | Inr all_items' \<Rightarrow>
                         (case py_in rel_next
                                 (py_or (case map_of res ''link'' of None \<Rightarrow> JNull | Some l \<Rightarrow> l)
                                        (JStr [])) of
                            Inl e \<Rightarrow> (Raise e, w)
                          | Inr has_next \<Rightarrow>
                              if \<not> has_next then (Break all_items', w)
                              else if sleep_s \<noteq> 0
                              then (case py_sleep sleep_s w of
                                      Inl e \<Rightarrow> (Raise e, w)
                                    | Inr w' \<Rightarrow> (Next all_items', w'))
                              else (Next all_items', w)))))"

text \<open>The whole body for page \<open>page\<close>; \<^verbatim>\<open>{**params, "page": page}\<close> is a \<open>dict_set\<close>.\<close>

definition page_step ::
  "transport \<Rightarrow> string \<Rightarrow> pydict \<Rightarrow> rat \<Rightarrow> int \<Rightarrow> json list \<Rightarrow> world \<Rightarrow> step \<times> world" where
  "page_step tr path params sleep_s page all_items w =
     (case fetch_page tr path (dict_set params ''page'' (JInt page)) w of
        (FRaise e, w1) \<Rightarrow> (Raise e, w1)
      | (FReturn res, w1) \<Rightarrow> (Return res, w1)
      | (FGoOn res, w1) \<Rightarrow> absorb_page res sleep_s all_items w1)"

function get_all_loop ::
  "transport \<Rightarrow> string \<Rightarrow> pydict \<Rightarrow> int \<Rightarrow> rat \<Rightarrow> int \<Rightarrow> json list \<Rightarrow> world
     \<Rightarrow> (py_error + pydict) \<times> world" where
  "get_all_loop tr path params max_pages sleep_s page all_items w =
     (if page \<le> max_pages
      then (case page_step tr path params sleep_s page all_items w of
              (Raise e, w') \<Rightarrow> (Inl e, w')
            | (Return res, w') \<Rightarrow> (Inr res, w')
            | (Break items, w') \<Rightarrow> (Inr [(''data'', JList items)], w')
            | (Next items, w') \<Rightarrow>
                get_all_loop tr path params max_pages sleep_s (page + 1) items w')
      else (Inr [(''data'', JList all_items)], w))"
  by pat_completeness auto
termination
  by (relation "measure (\<lambda>(tr, path, params, max_pages, sleep_s, page, all_items, w).
                           nat (max_pages + 1 - page))") auto

declare get_all_loop.simps [simp del]

definition get_all ::
  "transport \<Rightarrow> string \<Rightarrow> pydict option \<Rightarrow> int \<Rightarrow> rat \<Rightarrow> world \<Rightarrow> (py_error + pydict) \<times> world" where
  "get_all tr path params0 max_pages sleep_s w =
     get_all_loop tr path (params_or_empty params0) max_pages sleep_s 1 [] w"

text \<open>The same call of \<^verbatim>\<open>_get\<close> with \<^verbatim>\<open>use_cache=True\<close>, made \<open>n\<close> times in a row.\<close>

fun repeat_get ::
  "transport \<Rightarrow> string \<Rightarrow> pydict option \<Rightarrow> nat \<Rightarrow> world \<Rightarrow> (py_error + pydict) list \<times> world" where
  "repeat_get tr path ps 0 w = ([], w)"
| "repeat_get tr path ps (Suc n) w =
     (let (r, w1) = get tr path ps True w;
          (rs, w2) = repeat_get tr path ps n w1
      in (r # rs, w2))"

section \<open>Sample responses and states\<close>

text \<open>
  A successful response with a JSON body and a \<^verbatim>\<open>Link\<close> header, a failed response with
  a status and a body, the state of the module right after import (\<^verbatim>\<open>CACHE = LRU(128)\<close>),
  and remote sides that always answer with one more page, or with the JSON value
  \<^verbatim>\<open>null\<close>.
\<close>

definition page_response :: "json \<Rightarrow> string \<Rightarrow> response" where
  "page_response body link =
     \<lparr>resp_ok = True, resp_status_code = 200, resp_text = [],
      resp_headers = [''Link'' \<mapsto> link, ''X-RateLimit-Remaining'' \<mapsto> ''59''],
      resp_json = Some body\<rparr>"

definition error_response :: "int \<Rightarrow> string \<Rightarrow> response" where
  "error_response status body =
     \<lparr>resp_ok = False, resp_status_code = status, resp_text = body,
      resp_headers = [''X-RateLimit-Remaining'' \<mapsto> ''0'', ''X-RateLimit-Reset'' \<mapsto> ''1700000000''],
      resp_json = None\<rparr>"

definition start_world :: world where
  "start_world = \<lparr>CACHE = LRU_init 128, trace = []\<rparr>"

definition always_more :: transport where
  "always_more h path q = Inr (page_response (JList [JInt (int (length h))]) rel_next)"

definition null_transport :: transport where
  "null_transport h path q = Inr (page_response JNull [])"

definition warm_world :: world where
  "warm_world = snd (get_all always_more ''/x'' None 1 0 start_world)"

text \<open>A remote side that answers every request with 404.\<close>

definition not_found :: transport where
  "not_found h path q = Inr (error_response 404 ''Not Found'')"


fun is_net_call :: "event \<Rightarrow> bool" where
  "is_net_call (NetCall p q) = True"
| "is_net_call (Sleep s) = False"

text \<open>
  An event of a run over the pages \<open>lo\<close> to \<open>hi\<close>: a sleep, or a remote call for the
  path with the parameters of one of these pages.
\<close>

fun is_page_call :: "string \<Rightarrow> pydict \<Rightarrow> int \<Rightarrow> int \<Rightarrow> event \<Rightarrow> bool" where
  "is_page_call path params lo hi (Sleep s) = True"
| "is_page_call path params lo hi (NetCall p q) =
     (p = path \<and>
      (case map_of q ''page'' of
         Some (JInt i) \<Rightarrow> lo \<le> i \<and> i \<le> hi \<and> q = dict_set params ''page'' (JInt i)
       | _ \<Rightarrow> False))"

text \<open>The events that a call adds to the trace.\<close>

definition new_events :: "world \<Rightarrow> world \<Rightarrow> event list" where
  "new_events w w' = drop (length (trace w)) (trace w')"

definition page_events :: "string \<Rightarrow> pydict \<Rightarrow> event list \<Rightarrow> bool" where
  "page_events path q evs =
     ((\<forall>e \<in> set evs. e = NetCall path q \<or> \<not> is_net_call e) \<and> length (filter is_net_call evs) \<le> 2)"

text \<open>Reading a decimal numeral back.\<close>

definition digit_val :: "char \<Rightarrow> nat" where
  "digit_val c = of_char c - 48"

definition nat_of_digits :: "string \<Rightarrow> nat" where
  "nat_of_digits s = foldl (\<lambda>a c. 10 * a + digit_val c) 0 s"

definition int_of_string :: "string \<Rightarrow> int" where
  "int_of_string s =
     (case s of
        [] \<Rightarrow> 0
      | c # r \<Rightarrow> if c = CHR ''-'' then - int (nat_of_digits r) else int (nat_of_digits s))"

definition is_digit :: "char \<Rightarrow> bool" where
  "is_digit c = (48 \<le> (of_char c :: nat) \<and> (of_char c :: nat) \<le> 57)"

text \<open>A remote side that answers every request with a 403 rate-limit failure.\<close>

definition rate_limited :: transport where
  "rate_limited h path q = Inr (error_response 403 ''API Rate Limit exceeded'')"

section \<open>Properties of the LRU cache\<close>

lemma last_touch_snoc:
  "last_touch (xs @ [x]) k = (if op_key x = k then Suc (length xs) else last_touch xs k)"
  by (induction xs) (auto simp: Let_def)

lemma last_touch_le: "last_touch xs k \<le> length xs"
  by (induction xs) (auto simp: Let_def)

lemma map_of_dict_set: "map_of (dict_set d k v) = (map_of d)(k \<mapsto> v)"
  by (induction d) (auto simp: fun_eq_iff)

lemma keys_dict_set:
  "keys (dict_set d k v) = (if k \<in> set (keys d) then keys d else keys d @ [k])"
  by (induction d) (force simp: keys_def)+

lemma keys_move_to_end:
  "k \<in> set (keys d) \<Longrightarrow> keys (move_to_end d k) = filter (\<lambda>x. x \<noteq> k) (keys d) @ [k]"
  by (auto simp: move_to_end_def keys_def filter_map comp_def map_of_eq_None_iff split: option.splits)

lemma keys_move_to_end_absent:
  "k \<notin> set (keys d) \<Longrightarrow> move_to_end d k = d"
  by (auto simp: move_to_end_def keys_def map_of_eq_None_iff[symmetric] split: option.splits)

lemma has_key_keys: "has_key d k \<longleftrightarrow> k \<in> set (keys d)"
  by (simp add: has_key_def keys_def map_of_eq_None_iff)

lemma recency_sorted_touch:
  assumes "recency_sorted h ks" "op_key x = k"
  shows "recency_sorted (h @ [x]) (filter (\<lambda>y. y \<noteq> k) ks @ [k])"
proof -
  have d: "distinct (filter (\<lambda>y. y \<noteq> k) ks @ [k])"
    using assms(1) by (auto simp: recency_sorted_def)
  have s: "sorted_wrt (\<lambda>a b. last_touch h a < last_touch h b) (filter (\<lambda>y. y \<noteq> k) ks)"
    using assms(1) by (auto simp: recency_sorted_def intro: sorted_wrt_filter)
  have "sorted_wrt (\<lambda>a b. last_touch (h @ [x]) a < last_touch (h @ [x]) b) (filter (\<lambda>y. y \<noteq> k) ks)"
    by (rule sorted_wrt_mono_rel[OF _ s]) (auto simp: last_touch_snoc assms(2))
  moreover have "\<forall>y \<in> set (filter (\<lambda>y. y \<noteq> k) ks). last_touch (h @ [x]) y < last_touch (h @ [x]) k"
    using last_touch_le[of h] by (auto simp: last_touch_snoc assms(2) less_Suc_eq_le)
  ultimately show ?thesis using d
    by (simp add: recency_sorted_def sorted_wrt_append)
qed

lemma recency_sorted_untouched:
  assumes "recency_sorted h ks" "op_key x \<notin> set ks"
  shows "recency_sorted (h @ [x]) ks"
proof -
  have "sorted_wrt (\<lambda>a b. last_touch (h @ [x]) a < last_touch (h @ [x]) b) ks"
    by (rule sorted_wrt_mono_rel[of ks "\<lambda>a b. last_touch h a < last_touch h b"])
       (use assms in \<open>auto simp: last_touch_snoc recency_sorted_def\<close>)
  then show ?thesis using assms(1) by (simp add: recency_sorted_def)
qed

lemma recency_sorted_drop: "recency_sorted h ks \<Longrightarrow> recency_sorted h (drop n ks)"
  by (auto simp: recency_sorted_def sorted_wrt_drop)

lemma length_keys: "length (keys d) = length d"
  by (simp add: keys_def)

lemma keys_drop: "keys (drop n d) = drop n (keys d)"
  by (simp add: keys_def drop_map)

lemma keys_touched:
  "keys (move_to_end (dict_set d k v) k) = filter (\<lambda>x. x \<noteq> k) (keys d) @ [k]"
  by (cases "k \<in> set (keys d)") (auto simp: keys_move_to_end keys_dict_set)

lemma length_filter_neq_distinct:
  "distinct ks \<Longrightarrow>
   Suc (length (filter (\<lambda>x. x \<noteq> k) ks)) = (if k \<in> set ks then length ks else Suc (length ks))"
  by (induction ks) auto

lemma length_touched:
  assumes "distinct (keys d)"
  shows "length (move_to_end (dict_set d k v) k) =
         (if k \<in> set (keys d) then length d else Suc (length d))"
proof -
  have "length (move_to_end (dict_set d k v) k) = length (keys (move_to_end (dict_set d k v) k))"
    by (simp add: length_keys)
  also have "\<dots> = Suc (length (filter (\<lambda>x. x \<noteq> k) (keys d)))"
    by (simp add: keys_touched)
  also have "\<dots> = (if k \<in> set (keys d) then length (keys d) else Suc (length (keys d)))"
    using assms by (rule length_filter_neq_distinct)
  finally show ?thesis by (simp add: length_keys)
qed

lemma lru_inv_init: "lru_inv m [] (LRU_init m)"
  by (simp add: lru_inv_def LRU_init_def recency_sorted_def keys_def)

lemma lru_inv_get:
  assumes "lru_inv m h c"
  shows "lru_inv m (h @ [Get k]) (snd (LRU_get c k))"
proof (cases "k \<in> set (keys (dct c))")
  case True
  have "recency_sorted (h @ [Get k]) (filter (\<lambda>y. y \<noteq> k) (keys (dct c)) @ [k])"
    using assms by (intro recency_sorted_touch) (auto simp: lru_inv_def)
  moreover have "length (move_to_end (dct c) k) = length (dct c)"
    using length_filter_neq_distinct[of "keys (dct c)" k] assms True
    by (simp add: lru_inv_def recency_sorted_def keys_move_to_end length_keys
             flip: length_keys[of "move_to_end (dct c) k"])
  ultimately show ?thesis using assms True
    by (simp add: lru_inv_def LRU_get_def has_key_keys Let_def keys_move_to_end)
next
  case False
  then show ?thesis using assms
    by (simp add: lru_inv_def LRU_get_def has_key_keys recency_sorted_untouched)
qed

lemma lru_inv_set:
  assumes "lru_inv m h c"
  shows "lru_inv m (h @ [Set k v]) (LRU_set c k v)"
proof -
  let ?full = "move_to_end (dict_set (dct c) k v) k"
  have rs: "recency_sorted (h @ [Set k v]) (keys ?full)"
    using assms by (simp add: keys_touched lru_inv_def recency_sorted_touch)
  have len: "length ?full = (if k \<in> set (keys (dct c)) then length (dct c) else Suc (length (dct c)))"
    using assms by (intro length_touched) (simp add: lru_inv_def recency_sorted_def)
  show ?thesis
  proof (cases "int (length ?full) > maxsize c")
    case True
    then show ?thesis using assms rs len
      by (auto simp: lru_inv_def LRU_set_def Let_def keys_drop recency_sorted_drop split: if_splits)
  next
    case False
    then show ?thesis using assms rs
      by (auto simp: lru_inv_def LRU_set_def Let_def)
  qed
qed

lemma run_ops_snoc: "run_ops c (ops @ [x]) = apply_lru_op (run_ops c ops) x"
  by (simp add: run_ops_def)

lemma lru_inv_run: "lru_inv m ops (run_ops (LRU_init m) ops)"
proof (induction ops rule: rev_induct)
  case Nil
  show ?case by (simp add: run_ops_def lru_inv_init)
next
  case (snoc x xs)
  then show ?case
    by (cases x) (simp_all add: run_ops_snoc lru_inv_get lru_inv_set)
qed

lemma map_of_filter_neq:
  "map_of (filter (\<lambda>kv. fst kv \<noteq> k) d) k' = (if k' = k then None else map_of d k')"
  by (induction d) auto

lemma map_of_move_to_end: "map_of (move_to_end d k) = map_of d"
  by (auto simp: move_to_end_def fun_eq_iff map_add_def map_of_filter_neq split: option.splits)

lemma LRU_get_key_present:
  "has_key d k \<Longrightarrow> map_of (move_to_end d k) k = map_of d k \<and> map_of d k \<noteq> None"
  by (simp add: has_key_def map_of_move_to_end)

lemma LRU_set_key_present: "has_key (dict_set d k v) k"
  by (simp add: has_key_def map_of_dict_set)

lemma LRU_set_nonempty_before_pop: "move_to_end (dict_set d k v) k \<noteq> []"
  using keys_touched[of d k v] by (auto simp: keys_def)

text \<open>
  Claim C1. Take any sequence \<open>ops\<close> of \<open>get\<close> and \<open>set\<close> calls on a cache that starts
  empty with a capacity \<open>m\<close> that is not negative, followed by \<open>set(k, v)\<close>. After the call
  the cache holds at most \<open>m\<close> entries. When the dictionary with \<open>k\<close> stored and refreshed (\<open>full\<close>) has
  more than \<open>m\<close> entries, the call removes exactly one entry, the first one, and its key was
  last touched (by a \<open>get\<close> or a \<open>set\<close>) before every key that stays; otherwise
  nothing is removed. With capacity 2 and distinct keys, \<open>set(a); set(b); get(a); set(x)\<close>
  leaves exactly the keys \<open>a\<close> and \<open>x\<close>.
\<close>

theorem LRU_set_capacity_and_eviction:
  "(let c = run_ops (LRU_init m) ops;
        full = move_to_end (dict_set (dct c) k v) k;
        c' = LRU_set c k v;
        h = ops @ [Set k v]
    in (0 \<le> m \<longrightarrow> int (length (dct c')) \<le> m)
     \<and> (int (length full) \<le> m \<longrightarrow> dct c' = full)
     \<and> (int (length full) > m \<longrightarrow>
          full = hd full # dct c' \<and>
          (\<forall>k' \<in> set (keys (dct c')). last_touch h (fst (hd full)) < last_touch h k')))
   \<and> (a \<noteq> b \<and> a \<noteq> x \<and> b \<noteq> x \<longrightarrow>
        keys (dct (run_ops (LRU_init 2) [Set a va, Set b vb, Get a, Set x vx])) = [a, x])"
proof -
  define c where "c = run_ops (LRU_init m) ops"
  define full where "full = move_to_end (dict_set (dct c) k v) k"
  define h where "h = ops @ [Set k v]"
  have inv: "lru_inv m ops c"
    unfolding c_def by (rule lru_inv_run)
  have inv': "lru_inv m h (LRU_set c k v)"
    unfolding h_def using inv by (rule lru_inv_set)
  have size: "int (length (dct (LRU_set c k v))) \<le> m" if "0 \<le> m"
    using inv' that by (simp add: lru_inv_def)
  have msz: "maxsize c = m"
    using inv by (simp add: lru_inv_def)
  have keep: "dct (LRU_set c k v) = full" if "int (length full) \<le> m"
    using that msz by (simp add: LRU_set_def full_def Let_def)
  have ne: "full \<noteq> []"
    unfolding full_def by (rule LRU_set_nonempty_before_pop)
  have rs: "recency_sorted h (keys full)"
    using inv unfolding full_def h_def
    by (simp add: keys_touched lru_inv_def recency_sorted_touch)
  have evict: "full = hd full # dct (LRU_set c k v) \<and>
      (\<forall>k' \<in> set (keys (dct (LRU_set c k v))). last_touch h (fst (hd full)) < last_touch h k')"
    if "int (length full) > m"
  proof -
    have tl: "dct (LRU_set c k v) = tl full"
      using that msz by (simp add: LRU_set_def full_def Let_def drop_Suc)
    have "keys full = fst (hd full) # keys (tl full)"
      using ne by (cases full) (simp_all add: keys_def)
    with rs have "\<forall>k' \<in> set (keys (tl full)). last_touch h (fst (hd full)) < last_touch h k'"
      by (simp add: recency_sorted_def)
    with tl ne show ?thesis by simp
  qed
  have scen: "keys (dct (run_ops (LRU_init 2) [Set a va, Set b vb, Get a, Set x vx])) = [a, x]"
    if "a \<noteq> b" "a \<noteq> x" "b \<noteq> x"
    using that
    by (simp add: run_ops_def LRU_init_def LRU_set_def LRU_get_def move_to_end_def
                  has_key_def keys_def Let_def)
  show ?thesis
    using size keep evict scen
    unfolding c_def[symmetric] full_def[symmetric] h_def[symmetric] Let_def
    by (simp add: c_def full_def h_def)
qed

text \<open>The theorem at capacity 2 with the calls of the recency scenario: \<open>b\<close> is evicted.\<close>

theorem LRU_set_capacity_and_eviction_witness:
  "(0::int) \<le> 2
   \<and> int (length (dct (LRU_set (run_ops (LRU_init 2) [Set ''a'' (JInt 1), Set ''b'' (JInt 2), Get ''a''])
                               ''c'' (JInt 3)))) \<le> 2
   \<and> keys (dct (run_ops (LRU_init 2) [Set ''a'' (JInt 1), Set ''b'' (JInt 2), Get ''a'', Set ''c'' (JInt 3)]))
     = [''a'', ''c'']
   \<and> move_to_end (dict_set (dct (run_ops (LRU_init 2) [Set ''a'' (JInt 1), Set ''b'' (JInt 2), Get ''a''])) ''c'' (JInt 3)) ''c''
     = (''b'', JInt 2) # dct (LRU_set (run_ops (LRU_init 2) [Set ''a'' (JInt 1), Set ''b'' (JInt 2), Get ''a'']) ''c'' (JInt 3))
   \<and> last_touch [Set ''a'' (JInt 1), Set ''b'' (JInt 2), Get ''a'', Set ''c'' (JInt 3)] ''b'' <
     last_touch [Set ''a'' (JInt 1), Set ''b'' (JInt 2), Get ''a'', Set ''c'' (JInt 3)] ''a''"
  using LRU_set_capacity_and_eviction
    [of 2 "[Set ''a'' (JInt 1), Set ''b'' (JInt 2), Get ''a'']" "''c''" "JInt 3"
        "''a''" "''b''" "''c''" "JInt 1" "JInt 2" "JInt 3"]
  by (simp add: run_ops_def LRU_init_def LRU_set_def LRU_get_def move_to_end_def
                has_key_def keys_def Let_def)

lemma LRU_get_absent: "map_of (dct c) k = None \<Longrightarrow> LRU_get c k = (JNull, c)"
  by (simp add: LRU_get_def has_key_def)

lemma LRU_get_present:
  "map_of (dct c) k = Some v \<Longrightarrow> LRU_get c k = (v, c\<lparr>dct := move_to_end (dct c) k\<rparr>)"
  by (simp add: LRU_get_def has_key_def Let_def map_of_move_to_end)

lemma LRU_get_value:
  "fst (LRU_get c k) = (case map_of (dct c) k of None \<Rightarrow> JNull | Some v \<Rightarrow> v)"
  by (auto simp: LRU_get_absent LRU_get_present split: option.splits)

lemma LRU_get_map_of: "map_of (dct (snd (LRU_get c k))) = map_of (dct c)"
  by (cases "map_of (dct c) k") (simp_all add: LRU_get_absent LRU_get_present map_of_move_to_end)

lemma LRU_get_maxsize: "maxsize (snd (LRU_get c k)) = maxsize c"
  by (cases "map_of (dct c) k") (simp_all add: LRU_get_absent LRU_get_present)

lemma get_hit:
  assumes "map_of (dct (CACHE w)) (cache_key path (params_or_empty ps)) = Some v" "v \<noteq> JNull"
  shows "get tr path ps True w =
           (Inr [(''data'', v), (''from_cache'', JBool True)],
            w\<lparr>CACHE := (CACHE w)\<lparr>dct := move_to_end (dct (CACHE w)) (cache_key path (params_or_empty ps))\<rparr>\<rparr>)"
  using assms by (simp add: get_def Let_def LRU_get_present)

lemma get_miss:
  assumes "fst (LRU_get (CACHE w) (cache_key path (params_or_empty ps))) = JNull"
  shows "get tr path ps True w =
           get_remote tr path (params_or_empty ps) (cache_key path (params_or_empty ps)) True
             (w\<lparr>CACHE := snd (LRU_get (CACHE w) (cache_key path (params_or_empty ps)))\<rparr>)"
  using assms by (auto simp: get_def Let_def split: prod.splits)

lemma get_no_cache:
  "get tr path ps False w =
     get_remote tr path (params_or_empty ps) (cache_key path (params_or_empty ps)) False w"
  by (simp add: get_def Let_def)

lemma get_remote_trace:
  "trace (snd (get_remote tr path params key uc w)) = trace w @ [NetCall path params]"
  by (simp add: get_remote_def Let_def split: sum.splits option.splits)

lemma get_remote_from_cache:
  "fst (get_remote tr path params key uc w) = Inr res \<Longrightarrow> map_of res ''from_cache'' \<noteq> Some (JBool True)"
  by (auto simp: get_remote_def Let_def failure_dict_def success_dict_def split: sum.splits option.splits if_splits)

lemma get_cases:
  "(\<exists>v. v \<noteq> JNull \<and> map_of (dct (CACHE w)) (cache_key path (params_or_empty ps)) = Some v \<and> uc \<and>
       get tr path ps uc w = (Inr [(''data'', v), (''from_cache'', JBool True)],
            w\<lparr>CACHE := (CACHE w)\<lparr>dct := move_to_end (dct (CACHE w)) (cache_key path (params_or_empty ps))\<rparr>\<rparr>))
   \<or> (\<exists>w0. trace w0 = trace w \<and>
         get tr path ps uc w = get_remote tr path (params_or_empty ps) (cache_key path (params_or_empty ps)) uc w0)"
proof (cases uc)
  case False
  then show ?thesis by (auto simp: get_no_cache)
next
  case True
  show ?thesis
  proof (cases "fst (LRU_get (CACHE w) (cache_key path (params_or_empty ps))) = JNull")
    case miss: True
    show ?thesis
      using get_miss[OF miss, of tr] True
      by (intro disjI2 exI[of _ "w\<lparr>CACHE := snd (LRU_get (CACHE w) (cache_key path (params_or_empty ps)))\<rparr>"]) simp
  next
    case hit: False
    then obtain v where v: "map_of (dct (CACHE w)) (cache_key path (params_or_empty ps)) = Some v" "v \<noteq> JNull"
      by (auto simp: LRU_get_value split: option.splits)
    show ?thesis
      using get_hit[OF v, of tr] v True by auto
  qed
qed

lemma get_from_cache_no_link:
  assumes "fst (get tr path ps uc w) = Inr res" "map_of res ''from_cache'' = Some (JBool True)"
  shows "map_of res ''link'' = None"
  using get_cases[of w path ps uc tr] assms
  by (auto dest: get_remote_from_cache)

lemma params_or_empty_Some [simp]: "params_or_empty (Some q) = q"
  by (simp add: params_or_empty_def)

lemma rel_next_nonempty [simp]: "rel_next \<noteq> []"
  by (simp add: rel_next_def)

lemma fetch_page_hit:
  assumes "map_of (dct (CACHE w)) (cache_key path q) = Some v" "v \<noteq> JNull"
  shows "fetch_page tr path q w =
           (FGoOn [(''data'', v), (''from_cache'', JBool True)],
            w\<lparr>CACHE := (CACHE w)\<lparr>dct := move_to_end (dct (CACHE w)) (cache_key path q)\<rparr>\<rparr>)"
  using get_hit[of w path "Some q" v tr] assms
  by (simp add: fetch_page_def has_key_def)

lemma absorb_page_hit:
  "absorb_page [(''data'', v), (''from_cache'', JBool True)] sleep_s acc w =
     (case extract_items v of
        Inl e \<Rightarrow> (Raise e, w)
      | Inr items \<Rightarrow>
          if \<not> truthy items then (Break acc, w)
          else (case py_extend acc items of
                  Inl e \<Rightarrow> (Raise e, w)
                | Inr acc' \<Rightarrow> (Break acc', w)))"
  by (simp add: absorb_page_def py_or_def split: sum.splits)

section \<open>Properties of the fetcher and the paginator\<close>

text \<open>
  Claim C9. A result of \<^verbatim>\<open>_get\<close> that is marked \<^verbatim>\<open>from_cache = True\<close> has no \<^verbatim>\<open>link\<close>
  key. So when, in \<^verbatim>\<open>_get_all\<close>, the key of the current page holds a cached value
  (other than \<^verbatim>\<open>None\<close>), the pass through the loop body never asks for the next page:
  the run makes no remote call and no sleep from there on, and what it returns is decided
  by the cached page alone, the items so far followed by the items of that page (or
  the exception that the cached value raises). Nothing depends on the \<^verbatim>\<open>Link\<close> header
  the cached response once had.
\<close>

theorem cache_hit_has_no_link_and_stops_pagination:
  "(fst (get tr path ps use_cache w) = Inr res \<and> map_of res ''from_cache'' = Some (JBool True)
      \<longrightarrow> map_of res ''link'' = None)
   \<and> (page \<le> max_pages \<and>
       map_of (dct (CACHE w)) (cache_key path (dict_set params ''page'' (JInt page))) = Some v \<and>
       v \<noteq> JNull
      \<longrightarrow> (\<forall>items w'. page_step tr path params sleep_s page acc w \<noteq> (Next items, w'))
        \<and> trace (snd (get_all_loop tr path params max_pages sleep_s page acc w)) = trace w
        \<and> fst (get_all_loop tr path params max_pages sleep_s page acc w) =
            (case extract_items v of
               Inl e \<Rightarrow> Inl e
             | Inr items \<Rightarrow>
                 if \<not> truthy items then Inr [(''data'', JList acc)]
                 else (case py_extend acc items of
                         Inl e \<Rightarrow> Inl e
                       | Inr acc' \<Rightarrow> Inr [(''data'', JList acc')])))"
proof (intro conjI impI)
  assume "fst (get tr path ps use_cache w) = Inr res \<and> map_of res ''from_cache'' = Some (JBool True)"
  then show "map_of res ''link'' = None"
    using get_from_cache_no_link by blast
next
  assume h: "page \<le> max_pages \<and>
       map_of (dct (CACHE w)) (cache_key path (dict_set params ''page'' (JInt page))) = Some v \<and>
       v \<noteq> JNull"
  let ?q = "dict_set params ''page'' (JInt page)"
  let ?w0 = "w\<lparr>CACHE := (CACHE w)\<lparr>dct := move_to_end (dct (CACHE w)) (cache_key path ?q)\<rparr>\<rparr>"
  have step: "page_step tr path params sleep_s page acc w =
        absorb_page [(''data'', v), (''from_cache'', JBool True)] sleep_s acc ?w0"
    using h by (simp add: page_step_def fetch_page_hit)
  show "\<forall>items w'. page_step tr path params sleep_s page acc w \<noteq> (Next items, w')"
    unfolding step absorb_page_hit by (simp split: sum.splits)
  have loop: "get_all_loop tr path params max_pages sleep_s page acc w =
      (case absorb_page [(''data'', v), (''from_cache'', JBool True)] sleep_s acc ?w0 of
              (Raise e, w') \<Rightarrow> (Inl e, w')
            | (Return res, w') \<Rightarrow> (Inr res, w')
            | (Break items, w') \<Rightarrow> (Inr [(''data'', JList items)], w')
            | (Next items, w') \<Rightarrow>
                get_all_loop tr path params max_pages sleep_s (page + 1) items w')"
    using h by (subst get_all_loop.simps) (simp add: step)
  show "trace (snd (get_all_loop tr path params max_pages sleep_s page acc w)) = trace w"
    unfolding loop absorb_page_hit by (simp split: sum.splits)
  show "fst (get_all_loop tr path params max_pages sleep_s page acc w) =
            (case extract_items v of
               Inl e \<Rightarrow> Inl e
             | Inr items \<Rightarrow>
                 if \<not> truthy items then Inr [(''data'', JList acc)]
                 else (case py_extend acc items of
                         Inl e \<Rightarrow> Inl e
                       | Inr acc' \<Rightarrow> Inr [(''data'', JList acc')]))"
    unfolding loop absorb_page_hit by (simp split: sum.splits)
qed

text \<open>
  The first page is cached by a run against a remote side whose every response announces
  a next page; a second run of up to 5 pages stops at that page without a remote call.
\<close>

theorem cache_hit_has_no_link_and_stops_pagination_witness:
  "fst (get always_more ''/x'' (Some [(''page'', JInt 1)]) True warm_world)
     = Inr [(''data'', JList [JInt 0]), (''from_cache'', JBool True)]
   \<and> map_of [(''data'', JList [JInt 0]), (''from_cache'', JBool True)] ''link'' = None
   \<and> map_of (dct (CACHE warm_world)) (cache_key ''/x'' (dict_set [] ''page'' (JInt 1))) = Some (JList [JInt 0])
   \<and> trace (snd (get_all_loop always_more ''/x'' [] 5 0 1 [] warm_world)) = trace warm_world
   \<and> fst (get_all_loop always_more ''/x'' [] 5 0 1 [] warm_world) = Inr [(''data'', JList [JInt 0])]"
proof -
  have g: "fst (get always_more ''/x'' (Some [(''page'', JInt 1)]) True warm_world)
     = Inr [(''data'', JList [JInt 0]), (''from_cache'', JBool True)]"
    by code_simp
  have c: "map_of (dct (CACHE warm_world)) (cache_key ''/x'' (dict_set [] ''page'' (JInt 1))) = Some (JList [JInt 0])"
    by code_simp
  have f: "map_of [(''data'', JList [JInt 0]), (''from_cache'', JBool True)] ''from_cache'' = Some (JBool True)"
    by simp
  note t = cache_hit_has_no_link_and_stops_pagination
    [where tr = always_more and path = "''/x''" and ps = "Some [(''page'', JInt 1)]"
       and use_cache = True and w = warm_world
       and res = "[(''data'', JList [JInt 0]), (''from_cache'', JBool True)]"
       and page = 1 and max_pages = 5 and params = "[]" and v = "JList [JInt 0]"
       and sleep_s = 0 and acc = "[]"]
  from t g c f show ?thesis by simp
qed

lemma touched_snoc:
  "move_to_end (dict_set d k v) k = filter (\<lambda>kv. fst kv \<noteq> k) (dict_set d k v) @ [(k, v)]"
  by (simp add: move_to_end_def map_of_dict_set)

lemma lookup_after_store:
  assumes "k \<notin> fst ` set rest"
  shows "map_of (rest @ [(k, v)]) k = Some v"
    and "map_of (drop 1 (rest @ [(k, v)])) k = (if rest = [] then None else Some v)"
proof -
  have none: "map_of xs k = None" if "set xs \<subseteq> set rest" for xs
    using assms that by (auto simp: map_of_eq_None_iff)
  show "map_of (rest @ [(k, v)]) k = Some v"
    by (simp add: map_add_def none)
  show "map_of (drop 1 (rest @ [(k, v)])) k = (if rest = [] then None else Some v)"
  proof (cases rest)
    case Nil
    then show ?thesis by simp
  next
    case (Cons a list)
    then have "map_of list k = None"
      by (intro none) auto
    with Cons show ?thesis by (simp add: map_add_def)
  qed
qed

lemma map_of_LRU_set_cases:
  "map_of (dct (LRU_set c k v)) k = Some v \<or> map_of (dct (LRU_set c k v)) k = None"
proof -
  define rest where "rest = filter (\<lambda>kv. fst kv \<noteq> k) (dict_set (dct c) k v)"
  have "k \<notin> fst ` set rest"
    by (auto simp: rest_def)
  from lookup_after_store[OF this, of v] show ?thesis
    unfolding LRU_set_def Let_def touched_snoc rest_def[symmetric]
    by (cases "maxsize c < int (length (rest @ [(k, v)]))") (simp_all del: drop_append map_of_append)
qed

lemma map_of_LRU_set_stored:
  assumes "1 \<le> maxsize c"
  shows "map_of (dct (LRU_set c k v)) k = Some v"
proof -
  define rest where "rest = filter (\<lambda>kv. fst kv \<noteq> k) (dict_set (dct c) k v)"
  have "k \<notin> fst ` set rest"
    by (auto simp: rest_def)
  note l = lookup_after_store[OF this, of v]
  show ?thesis
  proof (cases "maxsize c < int (length (rest @ [(k, v)]))")
    case True
    with assms have "rest \<noteq> []" by auto
    with True l(2) show ?thesis
      unfolding LRU_set_def Let_def touched_snoc rest_def[symmetric]
      by (simp del: drop_append map_of_append)
  next
    case False
    with l(1) show ?thesis
      unfolding LRU_set_def Let_def touched_snoc rest_def[symmetric]
      by (simp del: drop_append map_of_append)
  qed
qed

lemma get_null_payload:
  assumes miss: "fst (LRU_get (CACHE w) (cache_key path (params_or_empty ps))) = JNull"
    and tr: "tr (trace w) path (params_or_empty ps) = Inr r"
    and ok: "resp_ok r" and null: "resp_json r = Some JNull"
  shows "fst (get tr path ps True w) = Inr (success_dict JNull r)"
    and "trace (snd (get tr path ps True w)) = trace w @ [NetCall path (params_or_empty ps)]"
    and "CACHE (snd (get tr path ps True w)) =
           LRU_set (snd (LRU_get (CACHE w) (cache_key path (params_or_empty ps))))
                   (cache_key path (params_or_empty ps)) JNull"
  using tr ok null unfolding get_miss[OF miss]
  by (simp_all add: get_remote_def Let_def)

lemma get_null_payload_miss_again:
  assumes miss: "fst (LRU_get (CACHE w) (cache_key path (params_or_empty ps))) = JNull"
    and tr: "tr (trace w) path (params_or_empty ps) = Inr r"
    and ok: "resp_ok r" and null: "resp_json r = Some JNull"
  shows "fst (LRU_get (CACHE (snd (get tr path ps True w))) (cache_key path (params_or_empty ps))) = JNull"
  using map_of_LRU_set_cases[of "snd (LRU_get (CACHE w) (cache_key path (params_or_empty ps)))"
          "cache_key path (params_or_empty ps)" JNull]
  unfolding get_null_payload(3)[of w path ps tr r, OF assms] LRU_get_value
  by auto

lemma repeat_get_null_payload:
  assumes "\<forall>h. tr h path (params_or_empty ps) = Inr r" "resp_ok r" "resp_json r = Some JNull"
    and "fst (LRU_get (CACHE w) (cache_key path (params_or_empty ps))) = JNull"
  shows "fst (repeat_get tr path ps n w) = replicate n (Inr (success_dict JNull r)) \<and>
         trace (snd (repeat_get tr path ps n w)) = trace w @ replicate n (NetCall path (params_or_empty ps))"
  using assms(4)
proof (induction n arbitrary: w)
  case 0
  show ?case by simp
next
  case (Suc n)
  have tr: "tr (trace w) path (params_or_empty ps) = Inr r"
    using assms(1) by simp
  note g = get_null_payload[of w path ps tr r, OF Suc.prems tr assms(2,3)]
  note again = get_null_payload_miss_again[of w path ps tr r, OF Suc.prems tr assms(2,3)]
  show ?case
    using Suc.IH[OF again] g(1,2)
    by (simp add: Let_def split: prod.splits) (metis fst_conv snd_conv replicate_app_Cons_same append_Cons append_Nil append_assoc)
qed

text \<open>
  Claim C10. \<^verbatim>\<open>LRU.get\<close> returns \<^verbatim>\<open>None\<close> for an absent key and for a key that holds
  \<^verbatim>\<open>None\<close> alike. So when the remote side answers a request with a successful response
  whose JSON body is \<^verbatim>\<open>null\<close>, and no other value is cached under the key: the first
  \<^verbatim>\<open>_get\<close> with \<^verbatim>\<open>use_cache=True\<close> stores \<^verbatim>\<open>None\<close> under the key (for a capacity of
  at least 1), and each of \<open>n\<close> identical calls in a row makes a remote call and
  returns the fresh result, marked \<^verbatim>\<open>from_cache = False\<close>.
\<close>

theorem LRU_absent_marker_hides_null_payload:
  "(map_of (dct c) k = None \<or> map_of (dct c) k = Some JNull \<longrightarrow> fst (LRU_get c k) = JNull)
   \<and> ((\<forall>h. tr h path (params_or_empty ps) = Inr r) \<and> resp_ok r \<and> resp_json r = Some JNull \<and>
       fst (LRU_get (CACHE w) (cache_key path (params_or_empty ps))) = JNull
      \<longrightarrow> (1 \<le> maxsize (CACHE w) \<longrightarrow>
             map_of (dct (CACHE (snd (get tr path ps True w)))) (cache_key path (params_or_empty ps))
               = Some JNull)
        \<and> fst (repeat_get tr path ps n w) = replicate n (Inr (success_dict JNull r))
        \<and> map_of (success_dict JNull r) ''from_cache'' = Some (JBool False)
        \<and> trace (snd (repeat_get tr path ps n w))
            = trace w @ replicate n (NetCall path (params_or_empty ps)))"
proof (intro conjI impI)
  assume "map_of (dct c) k = None \<or> map_of (dct c) k = Some JNull"
  then show "fst (LRU_get c k) = JNull"
    by (auto simp: LRU_get_value)
next
  assume h: "(\<forall>h. tr h path (params_or_empty ps) = Inr r) \<and> resp_ok r \<and> resp_json r = Some JNull \<and>
       fst (LRU_get (CACHE w) (cache_key path (params_or_empty ps))) = JNull"
  then have tr: "tr (trace w) path (params_or_empty ps) = Inr r"
    by simp
  from h repeat_get_null_payload[of tr path ps r w n]
  show "fst (repeat_get tr path ps n w) = replicate n (Inr (success_dict JNull r))"
    and "trace (snd (repeat_get tr path ps n w))
            = trace w @ replicate n (NetCall path (params_or_empty ps))"
    by simp_all
  show "map_of (success_dict JNull r) ''from_cache'' = Some (JBool False)"
    by (simp add: success_dict_def)
  assume "1 \<le> maxsize (CACHE w)"
  then show "map_of (dct (CACHE (snd (get tr path ps True w)))) (cache_key path (params_or_empty ps))
               = Some JNull"
    using h tr get_null_payload(3)[of w path ps tr r]
    by (simp add: map_of_LRU_set_stored LRU_get_maxsize)
qed

text \<open>Three calls against a remote side that answers \<^verbatim>\<open>null\<close>: three remote calls.\<close>

theorem LRU_absent_marker_hides_null_payload_witness:
  "fst (LRU_get (LRU_init 128) ''k'') = JNull
   \<and> fst (LRU_get (LRU_set (LRU_init 128) ''k'' JNull) ''k'') = JNull
   \<and> map_of (dct (CACHE (snd (get null_transport ''/x'' None True start_world)))) (cache_key ''/x'' [])
       = Some JNull
   \<and> fst (repeat_get null_transport ''/x'' None 3 start_world)
       = replicate 3 (Inr (success_dict JNull (page_response JNull [])))
   \<and> trace (snd (repeat_get null_transport ''/x'' None 3 start_world))
       = [NetCall ''/x'' [], NetCall ''/x'' [], NetCall ''/x'' []]"
proof -
  have a: "map_of (dct (LRU_init 128)) ''k'' = None"
    by (simp add: LRU_init_def)
  have b: "map_of (dct (LRU_set (LRU_init 128) ''k'' JNull)) ''k'' = Some JNull"
    by (simp add: map_of_LRU_set_stored LRU_init_def)
  have t: "\<forall>h. null_transport h ''/x'' (params_or_empty None) = Inr (page_response JNull [])"
    by (simp add: null_transport_def)
  have r: "resp_ok (page_response JNull [])" "resp_json (page_response JNull []) = Some JNull"
    by (simp_all add: page_response_def)
  have m: "fst (LRU_get (CACHE start_world) (cache_key ''/x'' (params_or_empty None))) = JNull"
    by (simp add: start_world_def LRU_init_def LRU_get_def has_key_def)
  have s: "1 \<le> maxsize (CACHE start_world)" "trace start_world = []"
    by (simp_all add: start_world_def LRU_init_def)
  have p: "params_or_empty None = []"
    by (simp add: params_or_empty_def)
  from LRU_absent_marker_hides_null_payload
         [where c = "LRU_init 128" and k = "''k''" and tr = null_transport and path = "''/x''"
            and ps = None and r = "page_response JNull []" and w = start_world and n = 3]
       LRU_absent_marker_hides_null_payload
         [where c = "LRU_set (LRU_init 128) ''k'' JNull" and k = "''k''" and tr = null_transport
            and path = "''/x''" and ps = None and r = "page_response JNull []"
            and w = start_world and n = 3]
       a b t r m s
  show ?thesis
    by (simp add: p numeral_3_eq_3)
qed

text \<open>
  Claim C2 on a payload that is \<^verbatim>\<open>None\<close>: the first call fetches and caches it, the key
  holds it, and the second identical call with \<^verbatim>\<open>use_cache=True\<close> still makes a remote
  call and returns \<^verbatim>\<open>from_cache = False\<close>, where the claim asks for the cached payload and
  no remote call. For every other cached payload the claim holds (lemma \<open>get_hit\<close>).
\<close>

theorem get_null_payload_is_never_served_from_cache:
  "fst (get null_transport ''/x'' None True start_world)
     = Inr [(''data'', JNull), (''from_cache'', JBool False), (''link'', JStr []), (''ratelimit'', JStr ''59'')]
   \<and> map_of (dct (CACHE (snd (get null_transport ''/x'' None True start_world)))) (cache_key ''/x'' [])
       = Some JNull
   \<and> fst (get null_transport ''/x'' None True (snd (get null_transport ''/x'' None True start_world)))
       = Inr [(''data'', JNull), (''from_cache'', JBool False), (''link'', JStr []), (''ratelimit'', JStr ''59'')]
   \<and> trace (snd (get null_transport ''/x'' None True (snd (get null_transport ''/x'' None True start_world))))
       = [NetCall ''/x'' [], NetCall ''/x'' []]"
  by code_simp

lemma get_remote_failure:
  assumes "tr (trace w) path params = Inr r" "\<not> resp_ok r"
  shows "get_remote tr path params key uc w =
           (Inr (failure_dict path r), w\<lparr>trace := trace w @ [NetCall path params]\<rparr>)"
  using assms by (simp add: get_remote_def Let_def)

lemma get_remote_cache_written:
  "CACHE (snd (get_remote tr path params key uc w)) = CACHE w \<or>
   (uc \<and> (\<exists>r data. tr (trace w) path params = Inr r \<and> resp_ok r \<and> resp_json r = Some data \<and>
            fst (get_remote tr path params key uc w) = Inr (success_dict data r) \<and>
            CACHE (snd (get_remote tr path params key uc w)) = LRU_set (CACHE w) key data))"
  by (auto simp: get_remote_def Let_def split: sum.splits option.splits)

lemma get_unfold:
  "get tr path ps uc w =
     (let key = cache_key path (params_or_empty ps);
          w0 = (if uc then w\<lparr>CACHE := snd (LRU_get (CACHE w) key)\<rparr> else w)
      in if uc \<and> fst (LRU_get (CACHE w) key) \<noteq> JNull
         then (Inr [(''data'', fst (LRU_get (CACHE w) key)), (''from_cache'', JBool True)], w0)
         else get_remote tr path (params_or_empty ps) key uc w0)"
  by (auto simp: get_def Let_def split: prod.splits)

lemma get_cache_written:
  "map_of (dct (CACHE (snd (get tr path ps uc w)))) = map_of (dct (CACHE w))
   \<or> (uc \<and> (\<exists>r data. tr (trace w) path (params_or_empty ps) = Inr r \<and> resp_ok r \<and>
                  resp_json r = Some data \<and>
                  fst (get tr path ps uc w) = Inr (success_dict data r)))"
proof -
  let ?key = "cache_key path (params_or_empty ps)"
  let ?w0 = "if uc then w\<lparr>CACHE := snd (LRU_get (CACHE w) ?key)\<rparr> else w"
  have m: "map_of (dct (CACHE ?w0)) = map_of (dct (CACHE w))" and t: "trace ?w0 = trace w"
    by (simp_all add: LRU_get_map_of)
  show ?thesis
  proof (cases "uc \<and> fst (LRU_get (CACHE w) ?key) \<noteq> JNull")
    case True
    then show ?thesis
      by (simp add: get_unfold Let_def LRU_get_map_of)
  next
    case False
    then have g: "get tr path ps uc w = get_remote tr path (params_or_empty ps) ?key uc ?w0"
      by (cases uc) (simp_all add: get_unfold Let_def)
    from get_remote_cache_written[of tr path "params_or_empty ps" ?key uc ?w0]
    show ?thesis
      unfolding g t using m by auto
  qed
qed

text \<open>
  Claim C7. When \<^verbatim>\<open>_get\<close> reaches the remote call (the cache is not used, or the lookup
  gave \<^verbatim>\<open>None\<close>) and the response is not ok, the result is the failure dictionary: the
  status code, a colon and the first 200 characters of the body under \<^verbatim>\<open>error\<close>, the
  path, and the two rate-limit headers. The cache keeps its capacity and maps every key
  to the value it had; it is the same cache altogether unless the lookup moved an
  entry that holds \<^verbatim>\<open>None\<close> to the fresh end. In any call of \<^verbatim>\<open>_get\<close>, the values in the
  cache change only when \<^verbatim>\<open>use_cache\<close> is set and the response is ok with a JSON body.
\<close>

theorem get_failure_is_reported_and_not_cached:
  "((use_cache \<longrightarrow> fst (LRU_get (CACHE w) (cache_key path (params_or_empty ps))) = JNull) \<and>
    tr (trace w) path (params_or_empty ps) = Inr r \<and> \<not> resp_ok r
    \<longrightarrow> fst (get tr path ps use_cache w) =
          Inr [(''error'', JStr (show_int (resp_status_code r) @ '': '' @ take 200 (resp_text r))),
               (''path'', JStr path),
               (''ratelimit-remaining'', JStr (header_get (resp_headers r) ''X-RateLimit-Remaining'')),
               (''ratelimit-reset'', JStr (header_get (resp_headers r) ''X-RateLimit-Reset''))]
      \<and> length (take 200 (resp_text r)) \<le> 200
      \<and> prefix (take 200 (resp_text r)) (resp_text r)
      \<and> map_of (dct (CACHE (snd (get tr path ps use_cache w)))) = map_of (dct (CACHE w))
      \<and> maxsize (CACHE (snd (get tr path ps use_cache w))) = maxsize (CACHE w)
      \<and> (\<not> use_cache \<or> map_of (dct (CACHE w)) (cache_key path (params_or_empty ps)) = None
           \<longrightarrow> CACHE (snd (get tr path ps use_cache w)) = CACHE w))
   \<and> (map_of (dct (CACHE (snd (get tr path ps use_cache w)))) = map_of (dct (CACHE w))
       \<or> (use_cache \<and>
           (\<exists>r' data. tr (trace w) path (params_or_empty ps) = Inr r' \<and> resp_ok r' \<and>
                       resp_json r' = Some data \<and>
                       fst (get tr path ps use_cache w) = Inr (success_dict data r'))))"
proof (intro conjI impI)
  assume h: "(use_cache \<longrightarrow> fst (LRU_get (CACHE w) (cache_key path (params_or_empty ps))) = JNull) \<and>
    tr (trace w) path (params_or_empty ps) = Inr r \<and> \<not> resp_ok r"
  let ?key = "cache_key path (params_or_empty ps)"
  define w0 where "w0 = (if use_cache then w\<lparr>CACHE := snd (LRU_get (CACHE w) ?key)\<rparr> else w)"
  have g: "get tr path ps use_cache w = get_remote tr path (params_or_empty ps) ?key use_cache w0"
    using h get_miss[of w path ps tr] by (cases use_cache) (simp_all add: w0_def get_no_cache)
  have tr0: "tr (trace w0) path (params_or_empty ps) = Inr r"
    using h by (simp add: w0_def)
  have res: "get tr path ps use_cache w =
        (Inr (failure_dict path r), w0\<lparr>trace := trace w0 @ [NetCall path (params_or_empty ps)]\<rparr>)"
    unfolding g using tr0 h by (intro get_remote_failure) simp_all
  show "fst (get tr path ps use_cache w) =
          Inr [(''error'', JStr (show_int (resp_status_code r) @ '': '' @ take 200 (resp_text r))),
               (''path'', JStr path),
               (''ratelimit-remaining'', JStr (header_get (resp_headers r) ''X-RateLimit-Remaining'')),
               (''ratelimit-reset'', JStr (header_get (resp_headers r) ''X-RateLimit-Reset''))]"
    by (simp add: res failure_dict_def)
  show "length (take 200 (resp_text r)) \<le> 200"
    by simp
  show "prefix (take 200 (resp_text r)) (resp_text r)"
    by (rule take_is_prefix)
  show "map_of (dct (CACHE (snd (get tr path ps use_cache w)))) = map_of (dct (CACHE w))"
    by (simp add: res w0_def LRU_get_map_of)
  show "maxsize (CACHE (snd (get tr path ps use_cache w))) = maxsize (CACHE w)"
    by (simp add: res w0_def LRU_get_maxsize)
  assume "\<not> use_cache \<or> map_of (dct (CACHE w)) ?key = None"
  then show "CACHE (snd (get tr path ps use_cache w)) = CACHE w"
    by (auto simp: res w0_def LRU_get_absent)
next
  let ?key = "cache_key path (params_or_empty ps)"
  show "map_of (dct (CACHE (snd (get tr path ps use_cache w)))) = map_of (dct (CACHE w))
       \<or> (use_cache \<and>
           (\<exists>r' data. tr (trace w) path (params_or_empty ps) = Inr r' \<and> resp_ok r' \<and>
                       resp_json r' = Some data \<and>
                       fst (get tr path ps use_cache w) = Inr (success_dict data r')))"
    by (rule get_cache_written)
qed

text \<open>A 404 for a path that is not cached, in a state with one cached page.\<close>

theorem get_failure_is_reported_and_not_cached_witness:
  "fst (LRU_get (CACHE warm_world) (cache_key ''/y'' [])) = JNull
   \<and> not_found (trace warm_world) ''/y'' [] = Inr (error_response 404 ''Not Found'')
   \<and> \<not> resp_ok (error_response 404 ''Not Found'')
   \<and> fst (get not_found ''/y'' None True warm_world) =
        Inr [(''error'', JStr ''404: Not Found''), (''path'', JStr ''/y''),
             (''ratelimit-remaining'', JStr ''0''), (''ratelimit-reset'', JStr ''1700000000'')]
   \<and> CACHE (snd (get not_found ''/y'' None True warm_world)) = CACHE warm_world"
proof -
  have p: "params_or_empty None = []"
    by (simp add: params_or_empty_def)
  have a: "fst (LRU_get (CACHE warm_world) (cache_key ''/y'' [])) = JNull"
    by code_simp
  have b: "not_found (trace warm_world) ''/y'' [] = Inr (error_response 404 ''Not Found'')"
    by (simp add: not_found_def)
  have c: "\<not> resp_ok (error_response 404 ''Not Found'')"
    by (simp add: error_response_def)
  have d: "map_of (dct (CACHE warm_world)) (cache_key ''/y'' []) = None"
    by code_simp
  have e: "show_int 404 = ''404''" "resp_status_code (error_response 404 ''Not Found'') = 404"
    "resp_text (error_response 404 ''Not Found'') = ''Not Found''"
    by (code_simp, simp_all add: error_response_def)
  have f: "header_get (resp_headers (error_response 404 ''Not Found'')) ''X-RateLimit-Remaining'' = ''0''"
    "header_get (resp_headers (error_response 404 ''Not Found'')) ''X-RateLimit-Reset'' = ''1700000000''"
    by (simp_all add: error_response_def header_get_def)
  from get_failure_is_reported_and_not_cached
         [where use_cache = True and w = warm_world and path = "''/y''" and ps = None
            and tr = not_found and r = "error_response 404 ''Not Found''"]
       a b c d
  show ?thesis
    unfolding p by (simp add: e f)
qed

lemma get_all_loop_step:
  "page \<le> max_pages \<Longrightarrow>
   get_all_loop tr path params max_pages sleep_s page acc w =
     (case page_step tr path params sleep_s page acc w of
        (Raise e, w') \<Rightarrow> (Inl e, w')
      | (Return res, w') \<Rightarrow> (Inr res, w')
      | (Break items, w') \<Rightarrow> (Inr [(''data'', JList items)], w')
      | (Next items, w') \<Rightarrow> get_all_loop tr path params max_pages sleep_s (page + 1) items w')"
  by (subst get_all_loop.simps) simp

lemma get_all_loop_done:
  "max_pages < page \<Longrightarrow>
   get_all_loop tr path params max_pages sleep_s page acc w = (Inr [(''data'', JList acc)], w)"
  by (subst get_all_loop.simps) simp






lemma get_trace_cases:
  "trace (snd (get tr path ps uc w)) = trace w \<or>
   trace (snd (get tr path ps uc w)) = trace w @ [NetCall path (params_or_empty ps)]"
  by (cases uc) (auto simp: get_unfold Let_def get_remote_trace)

lemma fetch_page_trace:
  "\<exists>evs. trace (snd (fetch_page tr path q w)) = trace w @ evs \<and> page_events path q evs"
proof -
  obtain r1 w1 where g1: "get tr path (Some q) True w = (r1, w1)"
    by (cases "get tr path (Some q) True w")
  then have t1: "trace w1 = trace w \<or> trace w1 = trace w @ [NetCall path q]"
    using get_trace_cases[of tr path "Some q" True w] by simp
  have sl: "py_sleep 2 w1 = Inr (w1\<lparr>trace := trace w1 @ [Sleep 2]\<rparr>)"
    by (simp add: py_sleep_def)
  obtain r2 w3 where g2: "get tr path (Some q) True (w1\<lparr>trace := trace w1 @ [Sleep 2]\<rparr>) = (r2, w3)"
    by (cases "get tr path (Some q) True (w1\<lparr>trace := trace w1 @ [Sleep 2]\<rparr>)")
  then have t3: "trace w3 = trace w1 @ [Sleep 2] \<or> trace w3 = trace w1 @ [Sleep 2, NetCall path q]"
    using get_trace_cases[of tr path "Some q" True "w1\<lparr>trace := trace w1 @ [Sleep 2]\<rparr>"] by simp
  have "snd (fetch_page tr path q w) = w1 \<or> snd (fetch_page tr path q w) = w3"
    unfolding fetch_page_def g1
    by (auto simp: sl g2 split: sum.splits option.splits json.splits)
  then show ?thesis
    using t1 t3 by (auto simp: page_events_def)
qed

lemma absorb_page_trace:
  "trace (snd (absorb_page res sleep_s acc w)) = trace w \<or>
   trace (snd (absorb_page res sleep_s acc w)) = trace w @ [Sleep sleep_s]"
  by (auto simp: absorb_page_def py_sleep_def split: option.splits sum.splits)

lemma page_step_trace:
  "\<exists>evs. trace (snd (page_step tr path params sleep_s page acc w)) = trace w @ evs \<and>
         page_events path (dict_set params ''page'' (JInt page)) evs"
proof -
  let ?q = "dict_set params ''page'' (JInt page)"
  obtain f w1 where f: "fetch_page tr path ?q w = (f, w1)"
    by (cases "fetch_page tr path ?q w")
  with fetch_page_trace[of tr path ?q w]
  obtain evs where evs: "trace w1 = trace w @ evs" "page_events path ?q evs"
    by auto
  show ?thesis
  proof (cases f)
    case (FGoOn res)
    with f have "page_step tr path params sleep_s page acc w = absorb_page res sleep_s acc w1"
      by (simp add: page_step_def)
    with absorb_page_trace[of res sleep_s acc w1] evs show ?thesis
      by (auto simp: page_events_def)
  qed (use f evs in \<open>auto simp: page_step_def\<close>)
qed

lemma page_events_is_page_call:
  assumes "page_events path (dict_set params ''page'' (JInt page)) evs" "lo \<le> page" "page \<le> hi"
  shows "list_all (is_page_call path params lo hi) evs"
proof -
  have "is_page_call path params lo hi e" if "e \<in> set evs" for e
  proof (cases e)
    case (NetCall p q)
    with that assms(1) have "e = NetCall path (dict_set params ''page'' (JInt page))"
      by (auto simp: page_events_def)
    with assms(2,3) show ?thesis
      by (simp add: map_of_dict_set)
  qed simp
  then show ?thesis by (simp add: list_all_iff)
qed

lemma is_page_call_mono:
  "is_page_call path params lo hi e \<Longrightarrow> lo' \<le> lo \<Longrightarrow> is_page_call path params lo' hi e"
  by (cases e) (auto split: option.splits json.splits)

lemma get_all_loop_trace:
  "\<exists>evs. trace (snd (get_all_loop tr path params max_pages sleep_s page acc w)) = trace w @ evs \<and>
         list_all (is_page_call path params page max_pages) evs \<and>
         length (filter is_net_call evs) \<le> 2 * nat (max_pages + 1 - page)"
proof (induction tr path params max_pages sleep_s page acc w rule: get_all_loop.induct)
  case (1 tr path params max_pages sleep_s page acc w)
  show ?case
  proof (cases "page \<le> max_pages")
    case False
    then show ?thesis by (simp add: get_all_loop_done)
  next
    case True
    obtain st w1 where st: "page_step tr path params sleep_s page acc w = (st, w1)"
      by (cases "page_step tr path params sleep_s page acc w")
    with page_step_trace[of tr path params sleep_s page acc w]
    obtain evs where evs: "trace w1 = trace w @ evs"
        "page_events path (dict_set params ''page'' (JInt page)) evs"
      by auto
    have pc: "list_all (is_page_call path params page max_pages) evs"
      using evs(2) True by (intro page_events_is_page_call) simp_all
    have n: "length (filter is_net_call evs) \<le> 2"
      using evs(2) by (simp add: page_events_def)
    have two: "2 \<le> 2 * nat (max_pages + 1 - page)"
      using True by simp
    show ?thesis
    proof (cases st)
      case (Next items)
      from "1.IH"[OF True st[symmetric] Next]
      obtain evs' where evs':
        "trace (snd (get_all_loop tr path params max_pages sleep_s (page + 1) items w1)) = trace w1 @ evs'"
        "list_all (is_page_call path params (page + 1) max_pages) evs'"
        "length (filter is_net_call evs') \<le> 2 * nat (max_pages + 1 - (page + 1))"
        by auto
      have "list_all (is_page_call path params page max_pages) evs'"
        using evs'(2) by (auto simp: list_all_iff intro: is_page_call_mono)
      moreover have "length (filter is_net_call (evs @ evs')) \<le> 2 * nat (max_pages + 1 - page)"
        using evs'(3) n True by simp
      ultimately show ?thesis
        using True st Next evs'(1) evs(1) pc
        by (intro exI[of _ "evs @ evs'"]) (simp add: get_all_loop_step)
    qed (use True st evs(1) pc n two in \<open>auto simp: get_all_loop_step\<close>)
  qed
qed

text \<open>
  Claim C5. \<^verbatim>\<open>_get_all\<close> is a total function (the loop is defined with its termination
  proof: \<open>max_pages + 1 - page\<close> decreases). Every remote call it makes is for the path
  with the parameters of a page from 1 to \<open>max_pages\<close>, and it makes at most two calls
  for each of these pages. When the pass for page \<open>max_pages\<close> asks for the next page, the
  run ends there and returns the items gathered under \<^verbatim>\<open>data\<close>, a success; so does any
  entry of the loop beyond \<open>max_pages\<close>.
\<close>

theorem get_all_stays_within_max_pages:
  "trace (snd (get_all tr path ps max_pages sleep_s w))
     = trace w @ new_events w (snd (get_all tr path ps max_pages sleep_s w))
   \<and> list_all (is_page_call path (params_or_empty ps) 1 max_pages)
        (new_events w (snd (get_all tr path ps max_pages sleep_s w)))
   \<and> length (filter is_net_call (new_events w (snd (get_all tr path ps max_pages sleep_s w))))
        \<le> 2 * nat max_pages
   \<and> (page_step tr path params sleep_s max_pages acc w = (Next items, w')
       \<longrightarrow> get_all_loop tr path params max_pages sleep_s max_pages acc w
             = (Inr [(''data'', JList items)], w'))
   \<and> (max_pages < page
       \<longrightarrow> get_all_loop tr path params max_pages sleep_s page acc w
             = (Inr [(''data'', JList acc)], w))"
proof -
  from get_all_loop_trace[of tr path "params_or_empty ps" max_pages sleep_s 1 "[]" w]
  obtain evs where evs:
    "trace (snd (get_all tr path ps max_pages sleep_s w)) = trace w @ evs"
    "list_all (is_page_call path (params_or_empty ps) 1 max_pages) evs"
    "length (filter is_net_call evs) \<le> 2 * nat max_pages"
    by (auto simp: get_all_def)
  have ne: "new_events w (snd (get_all tr path ps max_pages sleep_s w)) = evs"
    by (simp add: new_events_def evs(1))
  have ceil: "get_all_loop tr path params max_pages sleep_s max_pages acc w
             = (Inr [(''data'', JList items)], w')"
    if "page_step tr path params sleep_s max_pages acc w = (Next items, w')"
    using that by (simp add: get_all_loop_step get_all_loop_done)
  show ?thesis
    using evs ceil by (simp add: ne get_all_loop_done)
qed

text \<open>
  With \<open>max_pages = 2\<close> and a remote side that always announces a next page: two remote
  calls, for the pages 1 and 2, and the items of both pages.
\<close>

theorem get_all_stays_within_max_pages_witness:
  "get_all always_more ''/x'' None 2 0 start_world
     = (Inr [(''data'', JList [JInt 0, JInt 1])],
        snd (get_all always_more ''/x'' None 2 0 start_world))
   \<and> trace (snd (get_all always_more ''/x'' None 2 0 start_world))
     = [NetCall ''/x'' [(''page'', JInt 1)], NetCall ''/x'' [(''page'', JInt 2)]]
   \<and> page_step always_more ''/x'' [] 0 2 [JInt 0] warm_world
     = (Next [JInt 0, JInt 1], snd (get_all always_more ''/x'' None 2 0 start_world))
   \<and> get_all_loop always_more ''/x'' [] 2 0 2 [JInt 0] warm_world
     = (Inr [(''data'', JList [JInt 0, JInt 1])], snd (get_all always_more ''/x'' None 2 0 start_world))
   \<and> get_all_loop always_more ''/x'' [] 2 0 3 [JInt 0, JInt 1]
        (snd (get_all always_more ''/x'' None 2 0 start_world))
     = (Inr [(''data'', JList [JInt 0, JInt 1])], snd (get_all always_more ''/x'' None 2 0 start_world))"
proof -
  let ?w2 = "snd (get_all always_more ''/x'' None 2 0 start_world)"
  have a: "fst (get_all always_more ''/x'' None 2 0 start_world) = Inr [(''data'', JList [JInt 0, JInt 1])]"
    by code_simp
  have b: "trace ?w2 = [NetCall ''/x'' [(''page'', JInt 1)], NetCall ''/x'' [(''page'', JInt 2)]]"
    by code_simp
  have c: "page_step always_more ''/x'' [] 0 2 [JInt 0] warm_world = (Next [JInt 0, JInt 1], ?w2)"
    by code_simp
  from get_all_stays_within_max_pages
     [where tr = always_more and path = "''/x''" and ps = None and max_pages = 2 and sleep_s = 0
        and w = warm_world and params = "[]" and acc = "[JInt 0]" and w' = "?w2"
        and items = "[JInt 0, JInt 1]"]
     get_all_stays_within_max_pages
     [where tr = always_more and path = "''/x''" and ps = None and max_pages = 2 and sleep_s = 0
        and w = ?w2 and params = "[]" and acc = "[JInt 0, JInt 1]" and page = 3]
     a b c
  show ?thesis
    by (simp add: prod_eq_iff del: is_page_call.simps)
qed

lemma of_char_digit_char: "d < 10 \<Longrightarrow> (of_char (digit_char d) :: nat) = 48 + d"
  by (simp add: digit_char_def)

lemma digit_val_digit_char [simp]: "d < 10 \<Longrightarrow> digit_val (digit_char d) = d"
  by (simp add: digit_val_def of_char_digit_char)

lemma nat_of_digits_snoc: "nat_of_digits (s @ [c]) = 10 * nat_of_digits s + digit_val c"
  by (simp add: nat_of_digits_def)

lemma nat_of_digits_digits: "nat_of_digits (digits n) = n"
proof (induction n rule: digits.induct)
  case (1 n)
  show ?case
  proof (cases "n < 10")
    case True
    then show ?thesis
      by (subst digits.simps) (simp add: nat_of_digits_def)
  next
    case False
    with 1 show ?thesis
      by (subst digits.simps) (simp add: nat_of_digits_snoc)
  qed
qed

lemma is_digit_digit_char: "d < 10 \<Longrightarrow> is_digit (digit_char d)"
  by (simp add: is_digit_def of_char_digit_char)

lemma digits_all_digits: "\<forall>c \<in> set (digits n). is_digit c"
proof (induction n rule: digits.induct)
  case (1 n)
  show ?case
  proof (cases "n < 10")
    case True
    then show ?thesis
      by (subst digits.simps) (simp add: is_digit_digit_char)
  next
    case False
    with 1 show ?thesis
      by (subst digits.simps) (simp add: is_digit_digit_char)
  qed
qed

lemma digits_nonempty: "digits n \<noteq> []"
  by (subst digits.simps) simp

lemma minus_not_digit: "\<not> is_digit CHR ''-''"
  by (simp add: is_digit_def)

lemma int_of_string_show_int: "int_of_string (show_int i) = i"
proof (cases "i < 0")
  case True
  then show ?thesis
    by (simp add: show_int_def int_of_string_def nat_of_digits_digits)
next
  case False
  obtain c r where cr: "digits (nat i) = c # r"
    using digits_nonempty[of "nat i"] by (cases "digits (nat i)") auto
  then have "is_digit c"
    using digits_all_digits[of "nat i"] by simp
  then have "c \<noteq> CHR ''-''"
    using minus_not_digit by auto
  with False cr nat_of_digits_digits[of "nat i"] show ?thesis
    by (simp add: show_int_def int_of_string_def)
qed

lemma show_int_inj: "show_int a = show_int b \<Longrightarrow> a = b"
  by (metis int_of_string_show_int)

lemma show_int_chars: "c \<in> set (show_int i) \<Longrightarrow> is_digit c \<or> c = CHR ''-''"
  using digits_all_digits by (auto simp: show_int_def split: if_splits)

lemma lower_char_show_int: "c \<in> set (show_int i) \<Longrightarrow> lower_char c = c"
  by (drule show_int_chars) (auto simp: lower_char_def is_digit_def Let_def)

lemma lower_show_int: "lower (show_int i) = show_int i"
  by (simp add: lower_def map_idI lower_char_show_int)

lemma lower_append: "lower (a @ b) = lower a @ lower b"
  by (simp add: lower_def)

lemma contains_skip:
  assumes "hd n \<notin> set pre" "n \<noteq> []"
  shows "contains n (pre @ t) = contains n t"
  using assms
proof (induction pre)
  case Nil
  show ?case by simp
next
  case (Cons x pre)
  then have "\<not> prefix n (x # pre @ t)"
    by (cases n) auto
  with Cons show ?case by simp
qed

lemma split_at_first:
  "x \<notin> set xs \<Longrightarrow> x \<notin> set ys \<Longrightarrow> xs @ x # r = ys @ x # r' \<Longrightarrow> xs = ys \<and> r = r'"
proof (induction xs arbitrary: ys)
  case Nil
  then show ?case by (cases ys) auto
next
  case (Cons a xs)
  then show ?case by (cases ys) auto
qed

lemma show_int_403: "show_int 403 = ''403''"
  by code_simp

lemma starts_with_403:
  "prefix ''403:'' (show_int s @ '': '' @ t) \<longleftrightarrow> s = 403"
proof
  assume "s = 403"
  then show "prefix ''403:'' (show_int s @ '': '' @ t)"
    by (simp add: show_int_403)
next
  assume "prefix ''403:'' (show_int s @ '': '' @ t)"
  then obtain z where z: "show_int s @ CHR '':'' # (CHR '' '' # t) = ''403'' @ CHR '':'' # z"
    by (auto simp: prefix_def)
  have a: "CHR '':'' \<notin> set (show_int s)"
    using show_int_chars[of "CHR '':''" s] by (auto simp: is_digit_def)
  have b: "CHR '':'' \<notin> set ''403''"
    by simp
  from split_at_first[OF a b z] have "show_int s = ''403''"
    by simp
  then show "s = 403"
    using show_int_inj[of s 403] by (simp add: show_int_403)
qed

lemma is_rate_limit_error_string:
  "is_rate_limit (show_int s @ '': '' @ t) \<longleftrightarrow> s = 403 \<and> contains ''rate limit'' (lower t)"
proof -
  have l: "lower (show_int s @ '': '' @ t) = show_int s @ '': '' @ lower t"
    by (simp add: lower_append lower_show_int) (simp add: lower_def lower_char_def)
  have r: "CHR ''r'' \<notin> set (show_int s @ '': '')"
    using show_int_chars[of "CHR ''r''" s] by (auto simp: is_digit_def)
  have "contains ''rate limit'' ((show_int s @ '': '') @ lower t) = contains ''rate limit'' (lower t)"
    using r by (intro contains_skip) simp_all
  then show ?thesis
    unfolding is_rate_limit_def Let_def l starts_with_403 by simp
qed

lemma LRU_get_twice:
  "fst (LRU_get c k) = JNull \<Longrightarrow> fst (LRU_get (snd (LRU_get c k)) k) = JNull"
  by (simp add: LRU_get_value LRU_get_map_of)

lemma failure_dict_has_error [simp]: "has_key (failure_dict path r) ''error''"
  by (simp add: failure_dict_def has_key_def)

lemma failure_dict_error:
  "map_of (failure_dict path r) ''error''
     = Some (JStr (show_int (resp_status_code r) @ '': '' @ take 200 (resp_text r)))"
  by (simp add: failure_dict_def)

lemma get_miss_failure:
  assumes "fst (LRU_get (CACHE w) (cache_key path q)) = JNull"
    and "tr (trace w) path q = Inr r" "\<not> resp_ok r"
  shows "get tr path (Some q) True w =
           (Inr (failure_dict path r),
            w\<lparr>CACHE := snd (LRU_get (CACHE w) (cache_key path q)),
              trace := trace w @ [NetCall path q]\<rparr>)"
  using assms get_miss[of w path "Some q" tr]
  by (simp add: get_remote_failure)

lemma get_miss_trace:
  assumes "fst (LRU_get (CACHE w) (cache_key path q)) = JNull"
  shows "trace (snd (get tr path (Some q) True w)) = trace w @ [NetCall path q]"
  using assms get_miss[of w path "Some q" tr] by (simp add: get_remote_trace)

lemma fetch_page_no_retry:
  assumes "fst (LRU_get (CACHE w) (cache_key path q)) = JNull"
    and "tr (trace w) path q = Inr r" "\<not> resp_ok r"
    and "\<not> (resp_status_code r = 403 \<and> contains ''rate limit'' (lower (take 200 (resp_text r))))"
  shows "fetch_page tr path q w =
           (FReturn (failure_dict path r),
            w\<lparr>CACHE := snd (LRU_get (CACHE w) (cache_key path q)),
              trace := trace w @ [NetCall path q]\<rparr>)"
proof -
  define e where "e = show_int (resp_status_code r) @ '': '' @ take 200 (resp_text r)"
  have m: "map_of (failure_dict path r) ''error'' = Some (JStr e)"
    by (simp add: e_def failure_dict_error)
  have "\<not> is_rate_limit e"
    using assms(4) unfolding e_def is_rate_limit_error_string by blast
  then show ?thesis
    unfolding fetch_page_def get_miss_failure[where tr = tr, OF assms(1-3)]
    by (simp add: m)
qed

lemma fetch_page_retry:
  assumes "fst (LRU_get (CACHE w) (cache_key path q)) = JNull"
    and "tr (trace w) path q = Inr r" "\<not> resp_ok r"
    and "resp_status_code r = 403" "contains ''rate limit'' (lower (take 200 (resp_text r)))"
  shows "fetch_page tr path q w =
           (case get tr path (Some q) True
                   (w\<lparr>CACHE := snd (LRU_get (CACHE w) (cache_key path q)),
                      trace := trace w @ [NetCall path q, Sleep 2]\<rparr>) of
              (Inl x, w3) \<Rightarrow> (FRaise x, w3)
            | (Inr res2, w3) \<Rightarrow>
                if has_key res2 ''error'' then (FReturn res2, w3) else (FGoOn res2, w3))"
proof -
  define e where "e = show_int (resp_status_code r) @ '': '' @ take 200 (resp_text r)"
  have m: "map_of (failure_dict path r) ''error'' = Some (JStr e)"
    by (simp add: e_def failure_dict_error)
  have "is_rate_limit e"
    using assms(4,5) unfolding e_def is_rate_limit_error_string by blast
  then show ?thesis
    unfolding fetch_page_def get_miss_failure[where tr = tr, OF assms(1-3)]
    by (simp add: m py_sleep_def)
qed

text \<open>
  Claim C3. Take a page of \<^verbatim>\<open>_get_all\<close> whose first fetch reaches the remote side (the
  cache lookup gives \<^verbatim>\<open>None\<close>) and gets a response that is not ok.

  When its status is 403 and the first 200 characters of its body, in lower case, contain
  \<^verbatim>\<open>rate limit\<close>, the fetch of the page adds to the trace exactly the first call, a sleep of
  2 and one more call with the same parameters. When the second response is not ok
  either, \<^verbatim>\<open>_get_all\<close> returns the failure of the second response, and the trace ends with
  that second call: no further page is asked for.

  For any other response that is not ok, \<^verbatim>\<open>_get_all\<close> returns its failure, and the
  trace ends with the first call: there is no retry and no sleep.
\<close>

theorem rate_limit_failure_is_retried_once:
  "(page \<le> max_pages \<and>
    fst (LRU_get (CACHE w) (cache_key path (dict_set params ''page'' (JInt page)))) = JNull \<and>
    tr (trace w) path (dict_set params ''page'' (JInt page)) = Inr r \<and> \<not> resp_ok r \<and>
    resp_status_code r = 403 \<and> contains ''rate limit'' (lower (take 200 (resp_text r)))
    \<longrightarrow> trace (snd (fetch_page tr path (dict_set params ''page'' (JInt page)) w))
          = trace w @ [NetCall path (dict_set params ''page'' (JInt page)), Sleep 2,
                       NetCall path (dict_set params ''page'' (JInt page))]
      \<and> (tr (trace w @ [NetCall path (dict_set params ''page'' (JInt page)), Sleep 2]) path
              (dict_set params ''page'' (JInt page)) = Inr r2 \<and> \<not> resp_ok r2
          \<longrightarrow> fst (get_all_loop tr path params max_pages sleep_s page acc w)
                = Inr (failure_dict path r2)
            \<and> trace (snd (get_all_loop tr path params max_pages sleep_s page acc w))
                = trace w @ [NetCall path (dict_set params ''page'' (JInt page)), Sleep 2,
                             NetCall path (dict_set params ''page'' (JInt page))]))
   \<and> (page \<le> max_pages \<and>
       fst (LRU_get (CACHE w) (cache_key path (dict_set params ''page'' (JInt page)))) = JNull \<and>
       tr (trace w) path (dict_set params ''page'' (JInt page)) = Inr r \<and> \<not> resp_ok r \<and>
       \<not> (resp_status_code r = 403 \<and> contains ''rate limit'' (lower (take 200 (resp_text r))))
       \<longrightarrow> fst (get_all_loop tr path params max_pages sleep_s page acc w)
             = Inr (failure_dict path r)
         \<and> trace (snd (get_all_loop tr path params max_pages sleep_s page acc w))
             = trace w @ [NetCall path (dict_set params ''page'' (JInt page))])"
proof -
  let ?q = "dict_set params ''page'' (JInt page)"
  let ?w2 = "w\<lparr>CACHE := snd (LRU_get (CACHE w) (cache_key path ?q)),
               trace := trace w @ [NetCall path ?q, Sleep 2]\<rparr>"
  have miss2: "fst (LRU_get (CACHE ?w2) (cache_key path ?q)) = JNull"
    if "fst (LRU_get (CACHE w) (cache_key path ?q)) = JNull"
    using that by (simp add: LRU_get_twice)
  have A1: "trace (snd (fetch_page tr path ?q w)) = trace w @ [NetCall path ?q, Sleep 2, NetCall path ?q]"
    if h: "fst (LRU_get (CACHE w) (cache_key path ?q)) = JNull" "tr (trace w) path ?q = Inr r"
      "\<not> resp_ok r" "resp_status_code r = 403" "contains ''rate limit'' (lower (take 200 (resp_text r)))"
  proof -
    have "trace (snd (get tr path (Some ?q) True ?w2)) = trace ?w2 @ [NetCall path ?q]"
      using miss2[OF h(1)] by (rule get_miss_trace)
    then show ?thesis
      unfolding fetch_page_retry[where tr = tr, OF h]
      by (cases "get tr path (Some ?q) True ?w2") (auto split: sum.splits)
  qed
  have A2: "fst (get_all_loop tr path params max_pages sleep_s page acc w) = Inr (failure_dict path r2)
            \<and> trace (snd (get_all_loop tr path params max_pages sleep_s page acc w))
                = trace w @ [NetCall path ?q, Sleep 2, NetCall path ?q]"
    if h: "fst (LRU_get (CACHE w) (cache_key path ?q)) = JNull" "tr (trace w) path ?q = Inr r"
      "\<not> resp_ok r" "resp_status_code r = 403" "contains ''rate limit'' (lower (take 200 (resp_text r)))"
    and p: "page \<le> max_pages"
    and r2: "tr (trace w @ [NetCall path ?q, Sleep 2]) path ?q = Inr r2" "\<not> resp_ok r2"
  proof -
    have "tr (trace ?w2) path ?q = Inr r2"
      using r2 by simp
    from get_miss_failure[where tr = tr, OF miss2[OF h(1)] this r2(2)]
    have "fetch_page tr path ?q w =
        (FReturn (failure_dict path r2),
         ?w2\<lparr>CACHE := snd (LRU_get (CACHE ?w2) (cache_key path ?q)),
              trace := trace ?w2 @ [NetCall path ?q]\<rparr>)"
      unfolding fetch_page_retry[where tr = tr, OF h] by simp
    then show ?thesis
      using p by (simp add: get_all_loop_step page_step_def)
  qed
  have B: "fst (get_all_loop tr path params max_pages sleep_s page acc w) = Inr (failure_dict path r)
         \<and> trace (snd (get_all_loop tr path params max_pages sleep_s page acc w))
             = trace w @ [NetCall path ?q]"
    if h: "fst (LRU_get (CACHE w) (cache_key path ?q)) = JNull" "tr (trace w) path ?q = Inr r"
      "\<not> resp_ok r"
      "\<not> (resp_status_code r = 403 \<and> contains ''rate limit'' (lower (take 200 (resp_text r))))"
    and p: "page \<le> max_pages"
    using p by (simp add: get_all_loop_step page_step_def fetch_page_no_retry[where tr = tr, OF h])
  show ?thesis
    using A1 A2 B by blast
qed

text \<open>
  Against a remote side that is always rate-limited: two calls for page 1 with a sleep
  of 2 between them, then the failure. Against one that answers 404: one call.
\<close>

theorem rate_limit_failure_is_retried_once_witness:
  "fst (get_all_loop rate_limited ''/x'' [] 5 0 1 [] start_world)
     = Inr (failure_dict ''/x'' (error_response 403 ''API Rate Limit exceeded''))
   \<and> trace (snd (get_all_loop rate_limited ''/x'' [] 5 0 1 [] start_world))
     = [NetCall ''/x'' [(''page'', JInt 1)], Sleep 2, NetCall ''/x'' [(''page'', JInt 1)]]
   \<and> fst (get_all_loop not_found ''/x'' [] 5 0 1 [] start_world)
     = Inr (failure_dict ''/x'' (error_response 404 ''Not Found''))
   \<and> trace (snd (get_all_loop not_found ''/x'' [] 5 0 1 [] start_world))
     = [NetCall ''/x'' [(''page'', JInt 1)]]"
proof -
  have m: "fst (LRU_get (CACHE start_world) (cache_key ''/x'' (dict_set [] ''page'' (JInt 1)))) = JNull"
    by (simp add: start_world_def LRU_init_def LRU_get_def has_key_def)
  have t: "trace start_world = []"
    by (simp add: start_world_def)
  have r: "rate_limited h ''/x'' (dict_set [] ''page'' (JInt 1))
             = Inr (error_response 403 ''API Rate Limit exceeded'')" for h
    by (simp add: rate_limited_def)
  have n: "not_found h ''/x'' (dict_set [] ''page'' (JInt 1)) = Inr (error_response 404 ''Not Found'')" for h
    by (simp add: not_found_def)
  have e: "\<not> resp_ok (error_response 403 ''API Rate Limit exceeded'')"
    "resp_status_code (error_response 403 ''API Rate Limit exceeded'') = 403"
    "\<not> resp_ok (error_response 404 ''Not Found'')"
    "resp_status_code (error_response 404 ''Not Found'') = 404"
    by (simp_all add: error_response_def)
  have c: "contains ''rate limit'' (lower (take 200 (resp_text (error_response 403 ''API Rate Limit exceeded''))))"
    by code_simp
  note rate_limit_failure_is_retried_once
     [where page = 1 and max_pages = 5 and w = start_world and path = "''/x''" and params = "[]"
        and tr = rate_limited and r = "error_response 403 ''API Rate Limit exceeded''"
        and ?r2.0 = "error_response 403 ''API Rate Limit exceeded''" and sleep_s = 0 and acc = "[]"]
  moreover note rate_limit_failure_is_retried_once
     [where page = 1 and max_pages = 5 and w = start_world and path = "''/x''" and params = "[]"
        and tr = not_found and r = "error_response 404 ''Not Found''" and sleep_s = 0 and acc = "[]"]
  ultimately show ?thesis
    using m r n e c by (simp add: t)
qed

end
